theory Spec2Isabelle
  imports Complex_Main "HOL-Library.Word"
begin

section \<open>Data model of \<open>matrix_multiply.cpp\<close>\<close>

text \<open>
  A matrix is a \<open>long long**\<close>: a table of row pointers, each row an array of
  \<open>long long\<close>. The store maps an address to the 64-bit value held there; a matrix
  handle gives the address of each row, and \<open>A[i][j]\<close> is the cell at \<open>A i + j\<close>.
  Two handles may share cells, so aliasing between operands and destination is visible
  in the model. Arithmetic on \<open>long long\<close> is two's complement, modulo \<open>2 ^ 64\<close>.
  The dimension \<open>n\<close> is the C++ \<open>int\<close>; a loop \<open>for (i = 0; i < n; i++)\<close> runs over
  \<open>[0..<nat n]\<close>, which is empty for \<open>n \<le> 0\<close>.
\<close>

type_synonym addr = nat
type_synonym heap = "addr \<Rightarrow> 64 word"
type_synonym matrix = "nat \<Rightarrow> addr"

definition cell :: "matrix \<Rightarrow> nat \<Rightarrow> nat \<Rightarrow> addr" where
  "cell A i j = A i + j"

definition rd :: "heap \<Rightarrow> matrix \<Rightarrow> nat \<Rightarrow> nat \<Rightarrow> 64 word" where
  "rd h A i j = h (cell A i j)"

definition wr :: "heap \<Rightarrow> matrix \<Rightarrow> nat \<Rightarrow> nat \<Rightarrow> 64 word \<Rightarrow> heap" where
  "wr h C i j v = h(cell C i j := v)"

text \<open>The cells of the leading \<open>n \<times> n\<close> block of a matrix, and the two layout conditions
  the harness establishes by allocating every row with its own \<open>new long long[n]\<close>:
  the cells of one matrix are pairwise different, and two matrices share no cell.\<close>

definition cells :: "matrix \<Rightarrow> nat \<Rightarrow> addr set" where
  "cells A n = (\<lambda>(i, j). cell A i j) ` ({..<n} \<times> {..<n})"

definition rows_distinct :: "matrix \<Rightarrow> nat \<Rightarrow> bool" where
  "rows_distinct C n =
     (\<forall>i<n. \<forall>j<n. \<forall>i'<n. \<forall>j'<n. cell C i j = cell C i' j' \<longrightarrow> i = i' \<and> j = j')"

definition separate :: "matrix \<Rightarrow> matrix \<Rightarrow> nat \<Rightarrow> bool" where
  "separate A C n = (\<forall>i<n. \<forall>j<n. \<forall>i'<n. \<forall>j'<n. cell A i j \<noteq> cell C i' j')"

subsection \<open>Brute-force multiplication\<close>

text \<open>The innermost loop of \<open>matrixMultiplyBruteForce\<close>: \<open>C[i][j] = 0\<close>, then for every
  \<open>k\<close> the product is added unless one of the factors is zero.\<close>

definition bf_cell :: "heap \<Rightarrow> matrix \<Rightarrow> matrix \<Rightarrow> matrix \<Rightarrow> int \<Rightarrow> nat \<Rightarrow> nat \<Rightarrow> heap" where
  "bf_cell h A B C n i j =
     fold (\<lambda>k h. if rd h A i k \<noteq> 0 \<and> rd h B k j \<noteq> 0
                  then wr h C i j (rd h C i j + rd h A i k * rd h B k j) else h)
          [0..<nat n] (wr h C i j 0)"

definition matrixMultiplyBruteForce :: "heap \<Rightarrow> matrix \<Rightarrow> matrix \<Rightarrow> matrix \<Rightarrow> int \<Rightarrow> heap" where
  "matrixMultiplyBruteForce h A B C n =
     fold (\<lambda>i h. fold (\<lambda>j h. bf_cell h A B C n i j) [0..<nat n] h) [0..<nat n] h"

text \<open>The triple loop without the zero test, for comparison.\<close>

definition unconditional_cell :: "heap \<Rightarrow> matrix \<Rightarrow> matrix \<Rightarrow> matrix \<Rightarrow> int \<Rightarrow> nat \<Rightarrow> nat \<Rightarrow> heap" where
  "unconditional_cell h A B C n i j =
     fold (\<lambda>k h. wr h C i j (rd h C i j + rd h A i k * rd h B k j)) [0..<nat n] (wr h C i j 0)"

definition unconditionalTripleLoop :: "heap \<Rightarrow> matrix \<Rightarrow> matrix \<Rightarrow> matrix \<Rightarrow> int \<Rightarrow> heap" where
  "unconditionalTripleLoop h A B C n =
     fold (\<lambda>i h. fold (\<lambda>j h. unconditional_cell h A B C n i j) [0..<nat n] h) [0..<nat n] h"

subsection \<open>Elementwise addition and subtraction\<close>

definition addMatrix :: "heap \<Rightarrow> matrix \<Rightarrow> matrix \<Rightarrow> matrix \<Rightarrow> int \<Rightarrow> heap" where
  "addMatrix h A B C n =
     fold (\<lambda>i h. fold (\<lambda>j h. wr h C i j (rd h A i j + rd h B i j)) [0..<nat n] h) [0..<nat n] h"

definition subtractMatrix :: "heap \<Rightarrow> matrix \<Rightarrow> matrix \<Rightarrow> matrix \<Rightarrow> int \<Rightarrow> heap" where
  "subtractMatrix h A B C n =
     fold (\<lambda>i h. fold (\<lambda>j h. wr h C i j (rd h A i j - rd h B i j)) [0..<nat n] h) [0..<nat n] h"

subsection \<open>Equality check\<close>

text \<open>\<open>verifyMatrices\<close> leaves both loops at the first mismatch.\<close>

fun verify_row :: "heap \<Rightarrow> matrix \<Rightarrow> matrix \<Rightarrow> nat \<Rightarrow> nat list \<Rightarrow> bool" where
  "verify_row h A B i [] = True"
| "verify_row h A B i (j # js) =
     (if rd h A i j \<noteq> rd h B i j then False else verify_row h A B i js)"

fun verify_rows :: "heap \<Rightarrow> matrix \<Rightarrow> matrix \<Rightarrow> nat list \<Rightarrow> nat list \<Rightarrow> bool" where
  "verify_rows h A B [] js = True"
| "verify_rows h A B (i # is) js =
     (if verify_row h A B i js then verify_rows h A B is js else False)"

definition verifyMatrices :: "heap \<Rightarrow> matrix \<Rightarrow> matrix \<Rightarrow> int \<Rightarrow> bool" where
  "verifyMatrices h A B n = verify_rows h A B [0..<nat n] [0..<nat n]"

subsection \<open>Divide and conquer multiplication\<close>

text \<open>
  Every activation of \<open>matrixMultiplyDivideConquer\<close> with \<open>n > 2\<close> allocates seventeen
  \<open>half \<times> half\<close> matrices with \<open>new\<close> and deletes them before it returns. Storage
  obtained from \<open>new\<close> shares no cell with anything the caller can reach, so the model
  gives each activation a local store of its own, in which the seventeen matrices lie one
  after the other: \<open>fresh half b\<close> is the \<open>b\<close>-th of them (\<open>A11, A12, A21, A22, B11, B12,
  B21, B22, temp1, temp2, P1, \<dots>, P7\<close> in the order 0 to 16). What a fresh cell holds
  before it is written is indeterminate in C++; the store \<open>g\<close> supplies that content and is
  an arbitrary parameter of the model. A recursive call receives the local store of its
  caller as the store its three arguments point into.
\<close>

definition fresh :: "nat \<Rightarrow> nat \<Rightarrow> matrix" where
  "fresh half b = (\<lambda>i. (b * half + i) * half)"

text \<open>The loop that copies the four quadrants of \<open>A\<close> and of \<open>B\<close> (read in the caller's store
  \<open>h\<close>) into the local store \<open>l\<close>.\<close>

definition split_quadrants :: "heap \<Rightarrow> matrix \<Rightarrow> matrix \<Rightarrow> int \<Rightarrow> heap \<Rightarrow> heap" where
  "split_quadrants h A B half l =
     (let hf = nat half;
          A11 = fresh hf 0; A12 = fresh hf 1; A21 = fresh hf 2; A22 = fresh hf 3;
          B11 = fresh hf 4; B12 = fresh hf 5; B21 = fresh hf 6; B22 = fresh hf 7
      in fold (\<lambda>i l. fold (\<lambda>j l.
           let l = wr l A11 i j (rd h A i j);
               l = wr l A12 i j (rd h A i (j + hf));
               l = wr l A21 i j (rd h A (i + hf) j);
               l = wr l A22 i j (rd h A (i + hf) (j + hf));
               l = wr l B11 i j (rd h B i j);
               l = wr l B12 i j (rd h B i (j + hf));
               l = wr l B21 i j (rd h B (i + hf) j);
               l = wr l B22 i j (rd h B (i + hf) (j + hf))
           in l) [0..<hf] l) [0..<hf] l)"

text \<open>The seven products, each formed from one or two elementwise combinations in \<open>temp1\<close>
  and \<open>temp2\<close>. \<open>multiply\<close> stands for the recursive call on matrices of size \<open>half\<close>.\<close>

definition seven_products ::
  "(heap \<Rightarrow> matrix \<Rightarrow> matrix \<Rightarrow> matrix \<Rightarrow> heap) \<Rightarrow> int \<Rightarrow> heap \<Rightarrow> heap" where
  "seven_products multiply half l =
     (let hf = nat half;
          A11 = fresh hf 0; A12 = fresh hf 1; A21 = fresh hf 2; A22 = fresh hf 3;
          B11 = fresh hf 4; B12 = fresh hf 5; B21 = fresh hf 6; B22 = fresh hf 7;
          temp1 = fresh hf 8; temp2 = fresh hf 9;
          P1 = fresh hf 10; P2 = fresh hf 11; P3 = fresh hf 12; P4 = fresh hf 13;
          P5 = fresh hf 14; P6 = fresh hf 15; P7 = fresh hf 16;
          l = subtractMatrix l B12 B22 temp1 half;
          l = multiply l A11 temp1 P1;
          l = addMatrix l A11 A12 temp1 half;
          l = multiply l temp1 B22 P2;
          l = addMatrix l A21 A22 temp1 half;
          l = multiply l temp1 B11 P3;
          l = subtractMatrix l B21 B11 temp1 half;
          l = multiply l A22 temp1 P4;
          l = addMatrix l A11 A22 temp1 half;
          l = addMatrix l B11 B22 temp2 half;
          l = multiply l temp1 temp2 P5;
          l = subtractMatrix l A12 A22 temp1 half;
          l = addMatrix l B21 B22 temp2 half;
          l = multiply l temp1 temp2 P6;
          l = subtractMatrix l A11 A21 temp1 half;
          l = addMatrix l B11 B12 temp2 half;
          l = multiply l temp1 temp2 P7
      in l)"

text \<open>The loop that writes the four quadrants of \<open>C\<close> (in the caller's store \<open>h\<close>) from the
  products in the local store \<open>l\<close>.\<close>

definition combine_quadrants :: "heap \<Rightarrow> int \<Rightarrow> heap \<Rightarrow> matrix \<Rightarrow> heap" where
  "combine_quadrants l half h C =
     (let hf = nat half;
          P1 = fresh hf 10; P2 = fresh hf 11; P3 = fresh hf 12; P4 = fresh hf 13;
          P5 = fresh hf 14; P6 = fresh hf 15; P7 = fresh hf 16
      in fold (\<lambda>i h. fold (\<lambda>j h.
           let h = wr h C i j (rd l P5 i j + rd l P4 i j - rd l P2 i j + rd l P6 i j);
               h = wr h C i (j + hf) (rd l P1 i j + rd l P2 i j);
               h = wr h C (i + hf) j (rd l P3 i j + rd l P4 i j);
               h = wr h C (i + hf) (j + hf) (rd l P5 i j + rd l P1 i j - rd l P3 i j - rd l P7 i j)
           in h) [0..<hf] h) [0..<hf] h)"

function matrixMultiplyDivideConquer ::
  "heap \<Rightarrow> heap \<Rightarrow> matrix \<Rightarrow> matrix \<Rightarrow> matrix \<Rightarrow> int \<Rightarrow> heap" where
  "matrixMultiplyDivideConquer g h A B C n =
     (if n \<le> 2 then matrixMultiplyBruteForce h A B C n
      else
        let half = n div 2;
            l = split_quadrants h A B half g;
            l = seven_products (\<lambda>l X Y P. matrixMultiplyDivideConquer g l X Y P half) half l
        in combine_quadrants l half h C)"
  by pat_completeness auto
termination
  by (relation "measure (\<lambda>(g, h, A, B, C, n). nat n)") auto

declare matrixMultiplyDivideConquer.simps [simp del]

section \<open>Data model of \<open>factorial.cpp\<close>\<close>

text \<open>
  Results are \<open>unsigned long long\<close>: 64-bit words, multiplication modulo \<open>2 ^ 64\<close>. The
  argument is the C++ \<open>int\<close>; in \<open>result *= i\<close> and \<open>n * factorialDivideConquer(n - 1)\<close>
  it is converted to \<open>unsigned long long\<close>. The function-local static array
  \<open>memo[100]\<close> is the state that survives between calls: it is passed in and returned.
  Reading \<open>memo[n]\<close> with \<open>n \<ge> 100\<close> is outside the array; the model returns \<open>None\<close>
  there.
\<close>

type_synonym memo = "64 word list"

definition factorialBruteForce :: "int \<Rightarrow> 64 word" where
  "factorialBruteForce n =
     (if n \<le> 1 then 1 else fold (\<lambda>i result. result * word_of_int i) [2..n] 1)"

function factorialDivideConquer :: "memo \<Rightarrow> int \<Rightarrow> (64 word \<times> memo) option" where
  "factorialDivideConquer memo n =
     (if n \<le> 1 then Some (1, memo)
      else if length memo \<le> nat n then None
      else if memo ! nat n \<noteq> 0 then Some (memo ! nat n, memo)
      else (case factorialDivideConquer memo (n - 1) of
              None \<Rightarrow> None
            | Some (r, memo') \<Rightarrow>
                Some (word_of_int n * r, memo'[nat n := word_of_int n * r])))"
  by pat_completeness auto
termination
  by (relation "measure (\<lambda>(memo, n). nat n)") auto

declare factorialDivideConquer.simps [simp del]

text \<open>The table as the program starts, the states the table can be in after any number of
  calls that stay inside the array, and the property every such state has.\<close>

definition memo_initial :: memo where
  "memo_initial = replicate 100 0"

inductive reachable :: "memo \<Rightarrow> bool" where
  initial: "reachable memo_initial"
| call: "reachable memo \<Longrightarrow> n \<le> 99 \<Longrightarrow> factorialDivideConquer memo n = Some (r, memo')
          \<Longrightarrow> reachable memo'"

definition memo_ok :: "memo \<Rightarrow> bool" where
  "memo_ok memo = (length memo = 100 \<and> (\<forall>k<100. memo ! k = 0 \<or> memo ! k = word_of_nat (fact k)))"

section \<open>Data model of the prime-number program\<close>

text \<open>
  The arguments and loop counters are C++ \<open>int\<close>s, modelled as unbounded integers: no
  counter exceeds its argument by more than 2. \<open>%\<close> is only applied to a positive
  dividend and a positive divisor, where it is \<open>mod\<close>.
  \<open>static_cast<int>(std::sqrt(n))\<close> is modelled as the integer square root, computed
  by searching upwards; \<open>int_sqrt_floor\<close> below shows that it is the floor of the real
  square root.
\<close>

function sqrt_search :: "nat \<Rightarrow> nat \<Rightarrow> nat" where
  "sqrt_search n r = (if (r + 1) * (r + 1) \<le> n then sqrt_search n (r + 1) else r)"
  by pat_completeness auto
termination
proof (relation "measure (\<lambda>(n, r). n - r)")
  show "wf (measure (\<lambda>(n, r). n - r))" by simp
next
  fix n r :: nat assume a: "(r + 1) * (r + 1) \<le> n"
  have "r + 1 \<le> (r + 1) * (r + 1)" by simp
  then have "r < n" using a by linarith
  then show "((n, r + 1), (n, r)) \<in> measure (\<lambda>(n, r). n - r)" by simp
qed

declare sqrt_search.simps [simp del]

definition int_sqrt :: "int \<Rightarrow> int" where
  "int_sqrt n = int (sqrt_search (nat n) 0)"










section \<open>Matrices as values\<close>

text \<open>
  The contents of the leading \<open>n \<times> n\<close> block of a matrix in a store, and the operations of
  the specification on such values: the product \<open>C[i][j] = \<Sum>\<^sub>k A[i][k] * B[k][j]\<close>, the
  quadrants obtained by splitting both dimensions at \<open>half\<close>, and the recursive algorithm
  with its seven products and four combinations, written after the specification's
  formulas. A size is reducible when repeated exact halving reaches the base case
  \<open>n \<le> 2\<close>.
\<close>

type_synonym mat = "nat \<Rightarrow> nat \<Rightarrow> 64 word"

definition contents :: "heap \<Rightarrow> matrix \<Rightarrow> nat \<Rightarrow> mat" where
  "contents h A n = (\<lambda>i j. if i < n \<and> j < n then rd h A i j else 0)"

definition mat_add :: "mat \<Rightarrow> mat \<Rightarrow> mat" where
  "mat_add X Y = (\<lambda>i j. X i j + Y i j)"

definition mat_sub :: "mat \<Rightarrow> mat \<Rightarrow> mat" where
  "mat_sub X Y = (\<lambda>i j. X i j - Y i j)"

definition multiply_bruteforce :: "nat \<Rightarrow> mat \<Rightarrow> mat \<Rightarrow> mat" where
  "multiply_bruteforce n X Y = (\<lambda>i j. if i < n \<and> j < n then (\<Sum>k<n. X i k * Y k j) else 0)"

definition quadrant :: "nat \<Rightarrow> mat \<Rightarrow> nat \<Rightarrow> nat \<Rightarrow> mat" where
  "quadrant half X r c = (\<lambda>i j. if i < half \<and> j < half then X (i + r * half) (j + c * half) else 0)"

definition assemble :: "nat \<Rightarrow> mat \<Rightarrow> mat \<Rightarrow> mat \<Rightarrow> mat \<Rightarrow> mat" where
  "assemble half C11 C12 C21 C22 = (\<lambda>i j.
     if i < half then (if j < half then C11 i j else if j < 2 * half then C12 i (j - half) else 0)
     else if i < 2 * half then
        (if j < half then C21 (i - half) j else if j < 2 * half then C22 (i - half) (j - half) else 0)
     else 0)"

fun multiply_recursive :: "nat \<Rightarrow> mat \<Rightarrow> mat \<Rightarrow> mat" where
  "multiply_recursive n A B =
     (if n \<le> 2 then multiply_bruteforce n A B
      else
        let half = n div 2;
            A11 = quadrant half A 0 0; A12 = quadrant half A 0 1;
            A21 = quadrant half A 1 0; A22 = quadrant half A 1 1;
            B11 = quadrant half B 0 0; B12 = quadrant half B 0 1;
            B21 = quadrant half B 1 0; B22 = quadrant half B 1 1;
            P1 = multiply_recursive half A11 (mat_sub B12 B22);
            P2 = multiply_recursive half (mat_add A11 A12) B22;
            P3 = multiply_recursive half (mat_add A21 A22) B11;
            P4 = multiply_recursive half A22 (mat_sub B21 B11);
            P5 = multiply_recursive half (mat_add A11 A22) (mat_add B11 B22);
            P6 = multiply_recursive half (mat_sub A12 A22) (mat_add B21 B22);
            P7 = multiply_recursive half (mat_sub A11 A21) (mat_add B11 B12);
            C11 = mat_add (mat_sub (mat_add P5 P4) P2) P6;
            C12 = mat_add P1 P2;
            C21 = mat_add P3 P4;
            C22 = mat_sub (mat_sub (mat_add P5 P1) P3) P7
        in assemble half C11 C12 C21 C22)"

declare multiply_recursive.simps [simp del]

fun reducible_by_halving :: "nat \<Rightarrow> bool" where
  "reducible_by_halving n = (if n \<le> 2 then True else even n \<and> reducible_by_halving (n div 2))"

declare reducible_by_halving.simps [simp del]

text \<open>The matrix \<open>B\<close> holds the identity: ones on the diagonal, zeros elsewhere.\<close>

definition is_identity :: "heap \<Rightarrow> matrix \<Rightarrow> nat \<Rightarrow> bool" where
  "is_identity h B n = (\<forall>i<n. \<forall>j<n. rd h B i j = (if i = j then 1 else 0))"

subsection \<open>The writes of the split and combination loops, as lists\<close>

text \<open>Both loops only store values read from another store. For the proofs each loop is
  unrolled into the list of its writes (address and value): \<open>combined\<close> is the value the
  combination loop stores at index \<open>(i, j)\<close> of \<open>C\<close>, \<open>quadrant_source\<close> the one the split loop
  stores at index \<open>(i, j)\<close> of the \<open>b\<close>-th fresh matrix.\<close>

definition combined :: "heap \<Rightarrow> nat \<Rightarrow> nat \<times> nat \<Rightarrow> 64 word" where
  "combined l hf = (\<lambda>(i, j).
     if i < hf then
       (if j < hf then rd l (fresh hf 14) i j + rd l (fresh hf 13) i j - rd l (fresh hf 11) i j + rd l (fresh hf 15) i j
        else rd l (fresh hf 10) i (j - hf) + rd l (fresh hf 11) i (j - hf))
     else
       (if j < hf then rd l (fresh hf 12) (i - hf) j + rd l (fresh hf 13) (i - hf) j
        else rd l (fresh hf 14) (i - hf) (j - hf) + rd l (fresh hf 10) (i - hf) (j - hf)
             - rd l (fresh hf 12) (i - hf) (j - hf) - rd l (fresh hf 16) (i - hf) (j - hf)))"

definition combine_writes :: "heap \<Rightarrow> nat \<Rightarrow> matrix \<Rightarrow> nat \<Rightarrow> nat \<Rightarrow> (addr \<times> 64 word) list" where
  "combine_writes l hf C i j =
     [(cell C i j, rd l (fresh hf 14) i j + rd l (fresh hf 13) i j - rd l (fresh hf 11) i j + rd l (fresh hf 15) i j),
      (cell C i (j + hf), rd l (fresh hf 10) i j + rd l (fresh hf 11) i j),
      (cell C (i + hf) j, rd l (fresh hf 12) i j + rd l (fresh hf 13) i j),
      (cell C (i + hf) (j + hf), rd l (fresh hf 14) i j + rd l (fresh hf 10) i j
                                  - rd l (fresh hf 12) i j - rd l (fresh hf 16) i j)]"

definition quadrant_source :: "heap \<Rightarrow> matrix \<Rightarrow> matrix \<Rightarrow> nat \<Rightarrow> nat \<times> nat \<times> nat \<Rightarrow> 64 word" where
  "quadrant_source h A B hf = (\<lambda>(b, i, j).
     rd h (if b < 4 then A else B) (i + ((b div 2) mod 2) * hf) (j + (b mod 2) * hf))"

definition split_writes :: "heap \<Rightarrow> matrix \<Rightarrow> matrix \<Rightarrow> nat \<Rightarrow> nat \<Rightarrow> nat \<Rightarrow> (addr \<times> 64 word) list" where
  "split_writes h A B hf i j =
     [(cell (fresh hf 0) i j, rd h A i j),
      (cell (fresh hf 1) i j, rd h A i (j + hf)),
      (cell (fresh hf 2) i j, rd h A (i + hf) j),
      (cell (fresh hf 3) i j, rd h A (i + hf) (j + hf)),
      (cell (fresh hf 4) i j, rd h B i j),
      (cell (fresh hf 5) i j, rd h B i (j + hf)),
      (cell (fresh hf 6) i j, rd h B (i + hf) j),
      (cell (fresh hf 7) i j, rd h B (i + hf) (j + hf))]"

subsection \<open>Concrete layouts and stores used in the examples\<close>

text \<open>A matrix laid out row after row from a base address. \<open>heap_2x2\<close> holds
  \<open>[[1,2],[3,4]]\<close> at address 0 and \<open>[[5,6],[7,8]]\<close> at address 4; \<open>heap_4x4\<close> holds the
  values 1 to 16 in row-major order at address 0 and again at address 16;
  \<open>heap_identity_4x4\<close> holds them at address 0 and the identity matrix at address 16; \<open>heap_3x3\<close>
  holds the all-ones matrix at address 0 and the identity matrix at address 9. All other
  cells hold 0.\<close>

definition rows_at :: "addr \<Rightarrow> nat \<Rightarrow> matrix" where
  "rows_at base n = (\<lambda>i. base + n * i)"

definition heap_2x2 :: heap where
  "heap_2x2 = (\<lambda>_. 0)(0 := 1, 1 := 2, 2 := 3, 3 := 4, 4 := 5, 5 := 6, 6 := 7, 7 := 8)"

definition heap_4x4 :: heap where
  "heap_4x4 = (\<lambda>a. if a < 16 then word_of_nat (a + 1) else if a < 32 then word_of_nat (a - 15) else 0)"

definition heap_3x3 :: heap where
  "heap_3x3 = (\<lambda>a. if a < 9 then 1 else if a = 9 \<or> a = 13 \<or> a = 17 then 1 else 0)"

definition heap_identity_4x4 :: heap where
  "heap_identity_4x4 =
     (\<lambda>a. if a < 16 then word_of_nat (a + 1)
          else if a = 16 \<or> a = 21 \<or> a = 26 \<or> a = 31 then 1 else 0)"

section \<open>Loops that fill a matrix\<close>

lemma fold_frame:
  "(\<And>p h. p \<in> set ps \<Longrightarrow> step p h a = h a) \<Longrightarrow> fold step ps h a = h a"
  by (induction ps arbitrary: h) simp_all

lemma fold_value:
  assumes "distinct (map tgt ps)"
    and "tgt ` set ps \<subseteq> S"
    and "\<And>p h. p \<in> set ps \<Longrightarrow> step p h = h(tgt p := val p h)"
    and "\<And>p h h'. p \<in> set ps \<Longrightarrow> (\<forall>a. a \<notin> S \<longrightarrow> h' a = h a) \<Longrightarrow> val p h' = val p h"
    and "p \<in> set ps"
  shows "fold step ps h (tgt p) = val p h"
  using assms
proof (induction ps arbitrary: h)
  case Nil
  then show ?case by simp
next
  case (Cons q ps)
  have stepq: "step q h = h(tgt q := val q h)" by (rule Cons.prems(3)) simp
  show ?case
  proof (cases "p = q")
    case True
    have "fold step ps (step q h) (tgt q) = step q h (tgt q)"
    proof (rule fold_frame)
      fix r k assume "r \<in> set ps"
      moreover have "tgt q \<notin> tgt ` set ps" using Cons.prems(1) by simp
      ultimately have "tgt r \<noteq> tgt q" by (metis imageI)
      moreover have "step r k = k(tgt r := val r k)" by (rule Cons.prems(3)) (simp add: \<open>r \<in> set ps\<close>)
      ultimately show "step r k (tgt q) = k (tgt q)" by simp
    qed
    then show ?thesis using True stepq by simp
  next
    case False
    then have pin: "p \<in> set ps" using Cons.prems(5) by simp
    have "fold step ps (step q h) (tgt p) = val p (step q h)"
      using Cons.prems pin by (intro Cons.IH) auto
    also have "val p (step q h) = val p h"
    proof (rule Cons.prems(4))
      show "p \<in> set (q # ps)" using pin by simp
      show "\<forall>a. a \<notin> S \<longrightarrow> step q h a = h a" using stepq Cons.prems(2) by auto
    qed
    finally show ?thesis by simp
  qed
qed

lemma fold_nested_product:
  "fold (\<lambda>i. fold (g i) ys) xs = fold (\<lambda>(i, j). g i j) (List.product xs ys)"
  by (induction xs) (simp_all add: fold_map comp_def)

lemma separate_cells: "separate A C n \<longleftrightarrow> cells A n \<inter> cells C n = {}"
proof
  assume s: "separate A C n"
  show "cells A n \<inter> cells C n = {}"
  proof (rule ccontr)
    assume "cells A n \<inter> cells C n \<noteq> {}"
    then obtain a where "a \<in> cells A n" "a \<in> cells C n" by blast
    then obtain i j i' j' where "i < n" "j < n" "a = cell A i j" "i' < n" "j' < n" "a = cell C i' j'"
      unfolding cells_def by auto
    then show False using s unfolding separate_def by metis
  qed
next
  assume d: "cells A n \<inter> cells C n = {}"
  show "separate A C n"
    unfolding separate_def
  proof (intro allI impI)
    fix i j i' j' assume "i < n" "j < n" "i' < n" "j' < n"
    then have "cell A i j \<in> cells A n" "cell C i' j' \<in> cells C n"
      unfolding cells_def by auto
    then show "cell A i j \<noteq> cell C i' j'" using d by auto
  qed
qed

lemma rows_distinct_inj:
  "rows_distinct C n \<longleftrightarrow> inj_on (\<lambda>(i, j). cell C i j) ({..<n} \<times> {..<n})"
  unfolding rows_distinct_def inj_on_def by auto

lemma cell_in_cells: "i < n \<Longrightarrow> j < n \<Longrightarrow> cell A i j \<in> cells A n"
  by (auto simp: cells_def)

lemma set_product_upt: "set (List.product [0..<n] [0..<n]) = {..<n} \<times> {..<n}"
  by auto

lemma distinct_targets:
  "rows_distinct C n \<Longrightarrow> distinct (map (\<lambda>(i, j). cell C i j) (List.product [0..<n] [0..<n]))"
  unfolding rows_distinct_inj
  by (simp add: distinct_map distinct_product set_product_upt del: set_product)

lemma targets_cells: "(\<lambda>(i, j). cell C i j) ` set (List.product [0..<n] [0..<n]) = cells C n"
  by (simp add: cells_def set_product_upt del: set_product)

text \<open>A loop nest that stores \<open>val i j\<close> into every \<open>C[i][j]\<close>.\<close>

lemma loop_nest_frame:
  assumes "\<And>i j h. i < n \<Longrightarrow> j < n \<Longrightarrow> a \<noteq> cell C i j \<Longrightarrow> body i j h a = h a"
    and "a \<notin> cells C n"
  shows "fold (\<lambda>i h. fold (\<lambda>j h. body i j h) [0..<n] h) [0..<n] h a = h a"
proof -
  have "fold (\<lambda>(i, j). body i j) (List.product [0..<n] [0..<n]) h a = h a"
  proof (rule fold_frame)
    fix p k assume "p \<in> set (List.product [0..<n] [0..<n])"
    then obtain i j where p: "p = (i, j)" "i < n" "j < n" by auto
    then have "a \<noteq> cell C i j" using assms(2) cell_in_cells by blast
    then show "(case p of (i, j) \<Rightarrow> body i j) k a = k a" using p assms(1) by simp
  qed
  then show ?thesis using fold_nested_product [of body "[0..<n]" "[0..<n]"] by simp
qed

lemma loop_nest_value:
  assumes rd: "rows_distinct C n"
    and step: "\<And>i j (h :: addr \<Rightarrow> 'v). i < n \<Longrightarrow> j < n \<Longrightarrow> body i j h = h(cell C i j := val i j h)"
    and stable: "\<And>i j h h'. i < n \<Longrightarrow> j < n \<Longrightarrow> (\<forall>a. a \<notin> cells C n \<longrightarrow> h' a = h a)
                    \<Longrightarrow> val i j h' = val i j h"
    and "i < n" "j < n"
  shows "fold (\<lambda>i h. fold (\<lambda>j h. body i j h) [0..<n] h) [0..<n] h (cell C i j) = val i j h"
proof -
  let ?ps = "List.product [0..<n] [0..<n]"
  have "fold (\<lambda>(i, j). body i j) ?ps h ((\<lambda>(i, j). cell C i j) (i, j)) = (\<lambda>(i, j). val i j) (i, j) h"
  proof (rule fold_value [where S = "cells C n"])
    show "distinct (map (\<lambda>(i, j). cell C i j) ?ps)" by (rule distinct_targets [OF rd])
    show "(\<lambda>(i, j). cell C i j) ` set ?ps \<subseteq> cells C n" by (simp only: targets_cells)
    show "(i, j) \<in> set ?ps" using assms(4,5) by simp
  next
    fix p k assume "p \<in> set ?ps"
    then obtain i j where p: "p = (i, j)" "i < n" "j < n" by auto
    show "(case p of (i, j) \<Rightarrow> body i j) k
          = k((case p of (i, j) \<Rightarrow> cell C i j) := (case p of (i, j) \<Rightarrow> val i j) k)"
      using p step by simp
  next
    fix p and k k' :: "addr \<Rightarrow> 'v" assume "p \<in> set ?ps" and eq: "\<forall>a. a \<notin> cells C n \<longrightarrow> k' a = k a"
    then obtain i j where p: "p = (i, j)" "i < n" "j < n" by auto
    show "(case p of (i, j) \<Rightarrow> val i j) k' = (case p of (i, j) \<Rightarrow> val i j) k"
      using p stable [OF p(2,3) eq] by simp
  qed
  then show ?thesis using fold_nested_product [of body "[0..<n]" "[0..<n]"] by simp
qed

lemma separate_cell: "separate A C n \<Longrightarrow> i < n \<Longrightarrow> j < n \<Longrightarrow> cell A i j \<notin> cells C n"
  using cell_in_cells [of i n j A] by (auto simp: separate_cells)

lemma addMatrix_frame: "a \<notin> cells C (nat n) \<Longrightarrow> addMatrix h A B C n a = h a"
  unfolding addMatrix_def by (rule loop_nest_frame) (simp_all add: wr_def)

lemma subtractMatrix_frame: "a \<notin> cells C (nat n) \<Longrightarrow> subtractMatrix h A B C n a = h a"
  unfolding subtractMatrix_def by (rule loop_nest_frame) (simp_all add: wr_def)

lemma addMatrix_rd:
  assumes "rows_distinct C (nat n)" "separate A C (nat n)" "separate B C (nat n)"
    and "i < nat n" "j < nat n"
  shows "rd (addMatrix h A B C n) C i j = rd h A i j + rd h B i j"
proof -
  have "fold (\<lambda>i h. fold (\<lambda>j h. wr h C i j (rd h A i j + rd h B i j)) [0..<nat n] h) [0..<nat n] h
          (cell C i j) = (\<lambda>i j h. h (cell A i j) + h (cell B i j)) i j h"
  proof (rule loop_nest_value [OF assms(1) _ _ assms(4,5)])
    fix i j and k k' :: heap
    assume ij: "i < nat n" "j < nat n" and eq: "\<forall>a. a \<notin> cells C (nat n) \<longrightarrow> k' a = k a"
    show "k' (cell A i j) + k' (cell B i j) = k (cell A i j) + k (cell B i j)"
      using eq separate_cell [OF assms(2) ij] separate_cell [OF assms(3) ij] by simp
  qed (simp add: wr_def rd_def fun_upd_def)
  then show ?thesis by (simp add: addMatrix_def rd_def)
qed

lemma subtractMatrix_rd:
  assumes "rows_distinct C (nat n)" "separate A C (nat n)" "separate B C (nat n)"
    and "i < nat n" "j < nat n"
  shows "rd (subtractMatrix h A B C n) C i j = rd h A i j - rd h B i j"
proof -
  have "fold (\<lambda>i h. fold (\<lambda>j h. wr h C i j (rd h A i j - rd h B i j)) [0..<nat n] h) [0..<nat n] h
          (cell C i j) = (\<lambda>i j h. h (cell A i j) - h (cell B i j)) i j h"
  proof (rule loop_nest_value [OF assms(1) _ _ assms(4,5)])
    fix i j and k k' :: heap
    assume ij: "i < nat n" "j < nat n" and eq: "\<forall>a. a \<notin> cells C (nat n) \<longrightarrow> k' a = k a"
    show "k' (cell A i j) - k' (cell B i j) = k (cell A i j) - k (cell B i j)"
      using eq separate_cell [OF assms(2) ij] separate_cell [OF assms(3) ij] by simp
  qed (simp add: wr_def rd_def fun_upd_def)
  then show ?thesis by (simp add: subtractMatrix_def rd_def)
qed

text \<open>The accumulation loop of one cell.\<close>

lemma bf_cell_frame: "a \<noteq> cell C i j \<Longrightarrow> bf_cell h A B C n i j a = h a"
proof -
  assume a: "a \<noteq> cell C i j"
  have "fold (\<lambda>k h. if rd h A i k \<noteq> 0 \<and> rd h B k j \<noteq> 0
                  then wr h C i j (rd h C i j + rd h A i k * rd h B k j) else h)
          ks (wr h C i j 0) a = wr h C i j 0 a" for ks
    by (rule fold_frame) (simp add: wr_def a)
  then show ?thesis using a by (simp add: bf_cell_def wr_def)
qed

lemma bf_cell_loop:
  assumes "\<And>k. k < m \<Longrightarrow> cell A i k \<noteq> cell C i j" "\<And>k. k < m \<Longrightarrow> cell B k j \<noteq> cell C i j"
  shows "fold (\<lambda>k h. if rd h A i k \<noteq> 0 \<and> rd h B k j \<noteq> 0
                  then wr h C i j (rd h C i j + rd h A i k * rd h B k j) else h)
          [0..<m] (wr h C i j 0)
         = h(cell C i j := (\<Sum>k<m. h (cell A i k) * h (cell B k j)))"
  using assms unfolding wr_def rd_def
proof (induction m)
  case 0
  then show ?case by simp
next
  case (Suc m)
  have A: "cell A i m \<noteq> cell C i j" and B: "cell B m j \<noteq> cell C i j"
    using Suc.prems by simp_all
  have IH: "fold (\<lambda>k h. if h (cell A i k) \<noteq> 0 \<and> h (cell B k j) \<noteq> 0
                  then h(cell C i j := h (cell C i j) + h (cell A i k) * h (cell B k j)) else h)
          [0..<m] (h(cell C i j := 0))
         = h(cell C i j := (\<Sum>k<m. h (cell A i k) * h (cell B k j)))"
    using Suc.prems by (intro Suc.IH) simp_all
  show ?case
    unfolding upt_Suc_append [OF le0] fold_append comp_apply IH using A B by auto
qed

lemma bf_cell_eq:
  assumes "separate A C (nat n)" "separate B C (nat n)" "i < nat n" "j < nat n"
  shows "bf_cell h A B C n i j = h(cell C i j := (\<Sum>k<nat n. h (cell A i k) * h (cell B k j)))"
  unfolding bf_cell_def
proof (rule bf_cell_loop)
  fix k assume k: "k < nat n"
  show "cell A i k \<noteq> cell C i j"
    using separate_cell [OF assms(1) assms(3) k] cell_in_cells [OF assms(3,4), of C] by metis
  show "cell B k j \<noteq> cell C i j"
    using separate_cell [OF assms(2) k assms(4)] cell_in_cells [OF assms(3,4), of C] by metis
qed

lemma matrixMultiplyBruteForce_frame:
  "a \<notin> cells C (nat n) \<Longrightarrow> matrixMultiplyBruteForce h A B C n a = h a"
  unfolding matrixMultiplyBruteForce_def by (rule loop_nest_frame) (simp_all add: bf_cell_frame)

lemma matrixMultiplyBruteForce_rd:
  assumes "rows_distinct C (nat n)" "separate A C (nat n)" "separate B C (nat n)"
    and "i < nat n" "j < nat n"
  shows "rd (matrixMultiplyBruteForce h A B C n) C i j = (\<Sum>k<nat n. rd h A i k * rd h B k j)"
proof -
  have "fold (\<lambda>i h. fold (\<lambda>j h. bf_cell h A B C n i j) [0..<nat n] h) [0..<nat n] h (cell C i j)
        = (\<lambda>i j h. \<Sum>k<nat n. h (cell A i k) * h (cell B k j)) i j h"
  proof (rule loop_nest_value [OF assms(1) _ _ assms(4,5)])
    fix i j and k :: heap assume ij: "i < nat n" "j < nat n"
    show "bf_cell k A B C n i j = k(cell C i j := \<Sum>ka<nat n. k (cell A i ka) * k (cell B ka j))"
      by (rule bf_cell_eq [OF assms(2,3) ij])
  next
    fix i j and k k' :: heap
    assume ij: "i < nat n" "j < nat n" and eq: "\<forall>a. a \<notin> cells C (nat n) \<longrightarrow> k' a = k a"
    show "(\<Sum>ka<nat n. k' (cell A i ka) * k' (cell B ka j)) = (\<Sum>ka<nat n. k (cell A i ka) * k (cell B ka j))"
    proof (rule sum.cong [OF refl])
      fix x assume "x \<in> {..<nat n}"
      then have x: "x < nat n" by simp
      show "k' (cell A i x) * k' (cell B x j) = k (cell A i x) * k (cell B x j)"
        using eq separate_cell [OF assms(2) ij(1) x] separate_cell [OF assms(3) x ij(2)] by simp
    qed
  qed
  then show ?thesis by (simp add: matrixMultiplyBruteForce_def rd_def)
qed

lemma verify_row_iff: "verify_row h A B i js \<longleftrightarrow> (\<forall>j\<in>set js. rd h A i j = rd h B i j)"
  by (induction js) auto

lemma verify_rows_iff:
  "verify_rows h A B is js \<longleftrightarrow> (\<forall>i\<in>set is. \<forall>j\<in>set js. rd h A i j = rd h B i j)"
  by (induction "is") (auto simp: verify_row_iff)

lemma skip_zero_step:
  "(if rd h A i k \<noteq> 0 \<and> rd h B k j \<noteq> 0
    then wr h C i j (rd h C i j + rd h A i k * rd h B k j) else h)
   = wr h C i j (rd h C i j + rd h A i k * rd h B k j)"
  unfolding wr_def rd_def by auto

lemma bf_cell_unconditional: "bf_cell h A B C n i j = unconditional_cell h A B C n i j"
  unfolding bf_cell_def unconditional_cell_def skip_zero_step ..


subsection \<open>Facts about the example layout\<close>

lemma sum_lessThan_2: "(\<Sum>k<2. f k) = f 0 + f (Suc 0)"
  by (simp add: numeral_2_eq_2)

lemma rd_rows_at: "rd h (rows_at b n) i j = h (b + n * i + j)"
  by (simp add: rd_def cell_def rows_at_def)

lemma rows_at_distinct: "rows_distinct (rows_at b n) n"
  unfolding rows_distinct_def cell_def rows_at_def
proof (intro allI impI)
  fix i j i' j' assume a: "i < n" "j < n" "i' < n" "j' < n" "b + n * i + j = b + n * i' + j'"
  then have e: "n * i + j = n * i' + j'" by simp
  have "n \<noteq> 0" using a by auto
  then have "(j + n * i) div n = i" "(j' + n * i') div n = i'" using a by simp_all
  then have "i = i'" using e by (simp add: add.commute)
  then show "i = i' \<and> j = j'" using e by simp
qed

lemma rows_at_separate: "b + n * n \<le> c \<Longrightarrow> separate (rows_at b n) (rows_at c n) n"
  unfolding separate_def cell_def rows_at_def
proof (intro allI impI)
  fix i j i' j' assume a: "b + n * n \<le> c" "i < n" "j < n" "i' < n" "j' < n"
  have "n * i + j < n * i + n" using a by simp
  also have "\<dots> = n * Suc i" by simp
  also have "\<dots> \<le> n * n" using a by (intro mult_le_mono2) simp
  finally show "b + n * i + j \<noteq> c + n * i' + j'" using a by linarith
qed

section \<open>The local store of one activation\<close>

lemma fold_const_writes_frame:
  "a \<notin> tgt ` set ps \<Longrightarrow> fold (\<lambda>p h. h(tgt p := val p)) ps h a = h a"
  by (rule fold_frame) auto

lemma fold_const_writes:
  assumes "\<And>p q. p \<in> set ps \<Longrightarrow> q \<in> set ps \<Longrightarrow> tgt p = tgt q \<Longrightarrow> val p = val q"
    and "p \<in> set ps"
  shows "fold (\<lambda>p h. h(tgt p := val p)) ps h (tgt p) = val p"
  using assms
proof (induction ps arbitrary: h p)
  case Nil
  then show ?case by simp
next
  case (Cons q ps)
  let ?h = "h(tgt q := val q)"
  have unf: "fold (\<lambda>p h. h(tgt p := val p)) (q # ps) h = fold (\<lambda>p h. h(tgt p := val p)) ps ?h"
    by (simp only: fold_simps o_apply)
  show ?case
  proof (cases "tgt p \<in> tgt ` set ps")
    case True
    then obtain r where r: "r \<in> set ps" "tgt r = tgt p" by auto
    have "fold (\<lambda>p h. h(tgt p := val p)) ps ?h (tgt r) = val r"
    proof (rule Cons.IH [OF _ r(1)])
      fix p q assume "p \<in> set ps" "q \<in> set ps" "tgt p = tgt q"
      then show "val p = val q" by (intro Cons.prems(1)) auto
    qed
    moreover have "val r = val p" using Cons.prems r by (intro Cons.prems(1)) auto
    ultimately show ?thesis unfolding unf r(2) by (simp only:)
  next
    case False
    then have pq: "p = q" using Cons.prems(2) by auto
    have "fold (\<lambda>p h. h(tgt p := val p)) ps ?h (tgt p) = ?h (tgt p)"
      by (rule fold_const_writes_frame [OF False])
    also have "?h (tgt p) = val p" unfolding pq by (rule fun_upd_same)
    finally show ?thesis unfolding unf .
  qed
qed

lemma fold_over_concat: "fold f (concat xss) = fold (fold f) xss"
  by (induction xss) simp_all

lemma loop_nest_flat:
  assumes "\<And>i j h. body i j h = fold w (ws i j) h"
  shows "fold (\<lambda>i h. fold (\<lambda>j h. body i j h) ys h) xs h
         = fold w (concat (map (\<lambda>(i, j). ws i j) (List.product xs ys))) h"
proof -
  have "fold (\<lambda>i. fold (\<lambda>j. body i j) ys) xs = fold (\<lambda>(i, j). body i j) (List.product xs ys)"
    by (rule fold_nested_product)
  also have "(\<lambda>(i, j). body i j) = (\<lambda>p. fold w ((\<lambda>(i, j). ws i j) p))"
    using assms by (auto simp: fun_eq_iff)
  also have "fold (\<lambda>p. fold w ((\<lambda>(i, j). ws i j) p)) (List.product xs ys)
             = fold w (concat (map (\<lambda>(i, j). ws i j) (List.product xs ys)))"
    by (simp add: fold_over_concat fold_map comp_def)
  finally show ?thesis by simp
qed

subsection \<open>Layout of the local store\<close>

lemma cell_fresh: "cell (fresh hf b) i j = (b * hf + i) * hf + j"
  by (simp add: cell_def fresh_def)

lemma fresh_inj:
  assumes "i < hf" "j < hf" "i' < hf" "j' < hf"
    and "cell (fresh hf b) i j = cell (fresh hf b') i' j'"
  shows "b = b' \<and> i = i' \<and> j = j'"
proof -
  have hf: "0 < hf" using assms(1) by simp
  have e: "j + (b * hf + i) * hf = j' + (b' * hf + i') * hf"
    using assms(5) by (simp add: cell_fresh add.commute)
  have "(j + (b * hf + i) * hf) div hf = b * hf + i" "(j' + (b' * hf + i') * hf) div hf = b' * hf + i'"
    using assms hf by simp_all
  then have e2: "i + b * hf = i' + b' * hf" using e by (simp add: add.commute)
  have "(i + b * hf) div hf = b" "(i' + b' * hf) div hf = b'" using assms hf by simp_all
  then have b: "b = b'" using e2 by simp
  then have "i = i'" using e2 by simp
  then show ?thesis using b e by simp
qed

lemma fresh_rows_distinct: "rows_distinct (fresh hf b) hf"
  unfolding rows_distinct_def using fresh_inj by blast

lemma fresh_separate: "b \<noteq> b' \<Longrightarrow> separate (fresh hf b) (fresh hf b') hf"
  unfolding separate_def using fresh_inj by blast

lemma indexed_writes:
  assumes inj: "inj_on addr S"
    and form: "\<And>p. p \<in> set ps \<Longrightarrow> \<exists>x\<in>S. p = (addr x, V x)"
    and x: "x \<in> S" "(addr x, V x) \<in> set ps"
  shows "fold (\<lambda>p h. h(fst p := snd p)) ps h (addr x) = V x"
proof -
  have "fold (\<lambda>p h. h(fst p := snd p)) ps h (fst (addr x, V x)) = snd (addr x, V x)"
  proof (rule fold_const_writes [OF _ x(2)])
    fix p q assume pq: "p \<in> set ps" "q \<in> set ps" "fst p = fst q"
    obtain y where y: "y \<in> S" "p = (addr y, V y)" using form [OF pq(1)] by blast
    obtain z where z: "z \<in> S" "q = (addr z, V z)" using form [OF pq(2)] by blast
    have "addr y = addr z" using pq(3) y z by simp
    then have "y = z" using inj y(1) z(1) by (simp add: inj_on_def)
    then show "snd p = snd q" using y z by simp
  qed
  then show ?thesis by simp
qed

lemma indexed_writes_frame:
  assumes "\<And>p. p \<in> set ps \<Longrightarrow> \<exists>x\<in>S. fst p = addr x"
    and "a \<notin> addr ` S"
  shows "fold (\<lambda>p h. h(fst p := snd p)) ps h a = h a"
proof (rule fold_const_writes_frame)
  show "a \<notin> fst ` set ps" using assms by force
qed

lemma set_flat_product:
  "set (concat (map (\<lambda>(i, j). ws i j) (List.product [0..<n] [0..<m])))
   = {p. \<exists>i<n. \<exists>j<m. p \<in> set (ws i j)}"
  by fastforce

subsection \<open>The combination loop\<close>

lemma combine_quadrants_flat:
  "combine_quadrants l half h C
   = fold (\<lambda>p h. h(fst p := snd p))
       (concat (map (\<lambda>(i, j). combine_writes l (nat half) C i j)
                    (List.product [0..<nat half] [0..<nat half]))) h"
  unfolding combine_quadrants_def Let_def
  by (rule loop_nest_flat)
     (simp only: combine_writes_def wr_def fold_simps o_apply fst_conv snd_conv id_apply)

lemma combine_writes_form:
  assumes "i < hf" "j < hf" "p \<in> set (combine_writes l hf C i j)"
  shows "\<exists>x\<in>{..<2 * hf} \<times> {..<2 * hf}. p = ((\<lambda>(i, j). cell C i j) x, combined l hf x)"
proof -
  from assms(3) consider
      "p = (cell C i j, combined l hf (i, j))"
    | "p = (cell C i (j + hf), combined l hf (i, j + hf))"
    | "p = (cell C (i + hf) j, combined l hf (i + hf, j))"
    | "p = (cell C (i + hf) (j + hf), combined l hf (i + hf, j + hf))"
    using assms(1,2) by (auto simp: combine_writes_def combined_def)
  then show ?thesis
  proof cases
    case 1 then show ?thesis using assms(1,2) by (intro bexI [of _ "(i, j)"]) auto
  next
    case 2 then show ?thesis using assms(1,2) by (intro bexI [of _ "(i, j + hf)"]) auto
  next
    case 3 then show ?thesis using assms(1,2) by (intro bexI [of _ "(i + hf, j)"]) auto
  next
    case 4 then show ?thesis using assms(1,2) by (intro bexI [of _ "(i + hf, j + hf)"]) auto
  qed
qed

lemma combine_writes_covers:
  assumes "i < 2 * hf" "j < 2 * hf"
  shows "\<exists>i'<hf. \<exists>j'<hf. (cell C i j, combined l hf (i, j)) \<in> set (combine_writes l hf C i' j')"
proof -
  define i' where "i' = (if i < hf then i else i - hf)"
  define j' where "j' = (if j < hf then j else j - hf)"
  have b: "i' < hf" "j' < hf" using assms by (auto simp: i'_def j'_def)
  have "(cell C i j, combined l hf (i, j)) \<in> set (combine_writes l hf C i' j')"
    by (cases "i < hf"; cases "j < hf") (simp_all add: combine_writes_def combined_def i'_def j'_def)
  then show ?thesis using b by blast
qed

lemma combine_quadrants_frame:
  assumes "a \<notin> cells C (2 * nat half)"
  shows "combine_quadrants l half h C a = h a"
  unfolding combine_quadrants_flat
proof (rule indexed_writes_frame [where S = "{..<2 * nat half} \<times> {..<2 * nat half}"
        and addr = "\<lambda>(i, j). cell C i j"])
  show "a \<notin> (\<lambda>(i, j). cell C i j) ` ({..<2 * nat half} \<times> {..<2 * nat half})"
    using assms by (simp add: cells_def)
next
  fix p assume "p \<in> set (concat (map (\<lambda>(i, j). combine_writes l (nat half) C i j)
                    (List.product [0..<nat half] [0..<nat half])))"
  then obtain i j where ij: "i < nat half" "j < nat half" "p \<in> set (combine_writes l (nat half) C i j)"
    unfolding set_flat_product by blast
  from combine_writes_form [OF ij]
  show "\<exists>x\<in>{..<2 * nat half} \<times> {..<2 * nat half}. fst p = (case x of (i, j) \<Rightarrow> cell C i j)"
    by force
qed

lemma combine_quadrants_value:
  assumes "rows_distinct C (2 * nat half)" "i < 2 * nat half" "j < 2 * nat half"
  shows "rd (combine_quadrants l half h C) C i j = combined l (nat half) (i, j)"
proof -
  let ?S = "{..<2 * nat half} \<times> {..<2 * nat half}"
  have "fold (\<lambda>p h. h(fst p := snd p))
       (concat (map (\<lambda>(i, j). combine_writes l (nat half) C i j)
                    (List.product [0..<nat half] [0..<nat half]))) h ((\<lambda>(i, j). cell C i j) (i, j))
        = combined l (nat half) (i, j)"
  proof (rule indexed_writes [where S = ?S])
    show "inj_on (\<lambda>(i, j). cell C i j) ?S" using assms(1) by (simp add: rows_distinct_inj)
    show "(i, j) \<in> ?S" using assms(2,3) by simp
    show "((\<lambda>(i, j). cell C i j) (i, j), combined l (nat half) (i, j))
          \<in> set (concat (map (\<lambda>(i, j). combine_writes l (nat half) C i j)
                    (List.product [0..<nat half] [0..<nat half])))"
      unfolding set_flat_product using combine_writes_covers [OF assms(2,3)] by simp
  next
    fix p assume "p \<in> set (concat (map (\<lambda>(i, j). combine_writes l (nat half) C i j)
                    (List.product [0..<nat half] [0..<nat half])))"
    then obtain i j where ij: "i < nat half" "j < nat half" "p \<in> set (combine_writes l (nat half) C i j)"
      unfolding set_flat_product by blast
    from combine_writes_form [OF ij]
    show "\<exists>x\<in>?S. p = ((\<lambda>(i, j). cell C i j) x, combined l (nat half) x)" .
  qed
  then show ?thesis by (simp add: combine_quadrants_flat rd_def)
qed

subsection \<open>The split loop\<close>

lemma split_quadrants_flat:
  "split_quadrants h A B half l
   = fold (\<lambda>p h. h(fst p := snd p))
       (concat (map (\<lambda>(i, j). split_writes h A B (nat half) i j)
                    (List.product [0..<nat half] [0..<nat half]))) l"
  unfolding split_quadrants_def Let_def
  by (rule loop_nest_flat)
     (simp only: split_writes_def wr_def fold_simps o_apply fst_conv snd_conv id_apply)

lemma split_writes_set:
  "set (split_writes h A B hf i j)
   = (\<lambda>b. (cell (fresh hf b) i j, quadrant_source h A B hf (b, i, j))) ` {..<8}"
proof -
  have 8: "{..<8::nat} = {0, 1, 2, 3, 4, 5, 6, 7}" by auto
  show ?thesis unfolding 8 by (simp add: split_writes_def quadrant_source_def)
qed

lemma split_quadrants_value:
  assumes "b < 8" "i < nat half" "j < nat half"
  shows "rd (split_quadrants h A B half l) (fresh (nat half) b) i j
         = quadrant_source h A B (nat half) (b, i, j)"
proof -
  let ?hf = "nat half"
  let ?S = "{..<8::nat} \<times> {..<?hf} \<times> {..<?hf}"
  let ?addr = "\<lambda>(b, i, j). cell (fresh ?hf b) i j"
  let ?ps = "concat (map (\<lambda>(i, j). split_writes h A B ?hf i j) (List.product [0..<?hf] [0..<?hf]))"
  have "fold (\<lambda>p h. h(fst p := snd p)) ?ps l (?addr (b, i, j)) = quadrant_source h A B ?hf (b, i, j)"
  proof (rule indexed_writes [where S = ?S])
    show "inj_on ?addr ?S"
    proof (rule inj_onI)
      fix x y assume x: "x \<in> ?S" and y: "y \<in> ?S" and e: "?addr x = ?addr y"
      obtain b i j where xb: "x = (b, i, j)" by (cases x) auto
      obtain b' i' j' where yb: "y = (b', i', j')" by (cases y) auto
      have "i < ?hf" "j < ?hf" "i' < ?hf" "j' < ?hf" using x y xb yb by simp_all
      moreover have "cell (fresh ?hf b) i j = cell (fresh ?hf b') i' j'" using e xb yb by simp
      ultimately have "b = b' \<and> i = i' \<and> j = j'" by (rule fresh_inj)
      then show "x = y" using xb yb by simp
    qed
    show "(b, i, j) \<in> ?S" using assms by simp
    have "(cell (fresh ?hf b) i j, quadrant_source h A B ?hf (b, i, j)) \<in> set (split_writes h A B ?hf i j)"
      unfolding split_writes_set using assms(1) by blast
    then show "(?addr (b, i, j), quadrant_source h A B ?hf (b, i, j)) \<in> set ?ps"
      unfolding set_flat_product using assms(2,3) by auto
  next
    fix p assume "p \<in> set ?ps"
    then obtain i j where ij: "i < ?hf" "j < ?hf" "p \<in> set (split_writes h A B ?hf i j)"
      unfolding set_flat_product by blast
    then obtain b where "b < 8" "p = (cell (fresh ?hf b) i j, quadrant_source h A B ?hf (b, i, j))"
      unfolding split_writes_set by blast
    then show "\<exists>x\<in>?S. p = (?addr x, quadrant_source h A B ?hf x)"
      using ij by (intro bexI [of _ "(b, i, j)"]) simp_all
  qed
  then show ?thesis by (simp add: split_quadrants_flat rd_def)
qed

lemma split_quadrants_contents:
  "contents (split_quadrants h A B half l) (fresh (nat half) 0) (nat half) = quadrant (nat half) (rd h A) 0 0"
  "contents (split_quadrants h A B half l) (fresh (nat half) 1) (nat half) = quadrant (nat half) (rd h A) 0 1"
  "contents (split_quadrants h A B half l) (fresh (nat half) 2) (nat half) = quadrant (nat half) (rd h A) 1 0"
  "contents (split_quadrants h A B half l) (fresh (nat half) 3) (nat half) = quadrant (nat half) (rd h A) 1 1"
  "contents (split_quadrants h A B half l) (fresh (nat half) 4) (nat half) = quadrant (nat half) (rd h B) 0 0"
  "contents (split_quadrants h A B half l) (fresh (nat half) 5) (nat half) = quadrant (nat half) (rd h B) 0 1"
  "contents (split_quadrants h A B half l) (fresh (nat half) 6) (nat half) = quadrant (nat half) (rd h B) 1 0"
  "contents (split_quadrants h A B half l) (fresh (nat half) 7) (nat half) = quadrant (nat half) (rd h B) 1 1"
  by (simp_all add: contents_def quadrant_def fun_eq_iff split_quadrants_value quadrant_source_def)

subsection \<open>Operations on the contents of matrices\<close>

lemma contents_frame:
  assumes "\<And>a. a \<notin> cells C n \<Longrightarrow> h' a = h a" "separate D C n"
  shows "contents h' D n = contents h D n"
proof -
  have "rd h' D i j = rd h D i j" if "i < n" "j < n" for i j
    unfolding rd_def using assms(1) separate_cell [OF assms(2) that] by simp
  then show ?thesis by (auto simp: contents_def fun_eq_iff)
qed

lemma addMatrix_contents_frame:
  "separate D C (nat n) \<Longrightarrow> contents (addMatrix h A B C n) D (nat n) = contents h D (nat n)"
  by (rule contents_frame) (rule addMatrix_frame)

lemma subtractMatrix_contents_frame:
  "separate D C (nat n) \<Longrightarrow> contents (subtractMatrix h A B C n) D (nat n) = contents h D (nat n)"
  by (rule contents_frame) (rule subtractMatrix_frame)

lemma addMatrix_contents:
  assumes "rows_distinct C (nat n)" "separate A C (nat n)" "separate B C (nat n)"
  shows "contents (addMatrix h A B C n) C (nat n) = mat_add (contents h A (nat n)) (contents h B (nat n))"
  using addMatrix_rd [OF assms] by (auto simp: contents_def mat_add_def fun_eq_iff)

lemma subtractMatrix_contents:
  assumes "rows_distinct C (nat n)" "separate A C (nat n)" "separate B C (nat n)"
  shows "contents (subtractMatrix h A B C n) C (nat n) = mat_sub (contents h A (nat n)) (contents h B (nat n))"
  using subtractMatrix_rd [OF assms] by (auto simp: contents_def mat_sub_def fun_eq_iff)

lemma multiply_bruteforce_cong:
  assumes "\<And>i j. i < n \<Longrightarrow> j < n \<Longrightarrow> X i j = X' i j" "\<And>i j. i < n \<Longrightarrow> j < n \<Longrightarrow> Y i j = Y' i j"
  shows "multiply_bruteforce n X Y = multiply_bruteforce n X' Y'"
  unfolding multiply_bruteforce_def using assms by (auto simp: fun_eq_iff intro!: sum.cong)

lemma matrixMultiplyBruteForce_contents:
  assumes "rows_distinct C (nat n)" "separate A C (nat n)" "separate B C (nat n)"
  shows "contents (matrixMultiplyBruteForce h A B C n) C (nat n)
         = multiply_bruteforce (nat n) (contents h A (nat n)) (contents h B (nat n))"
proof -
  have "multiply_bruteforce (nat n) (contents h A (nat n)) (contents h B (nat n))
        = multiply_bruteforce (nat n) (rd h A) (rd h B)"
    by (rule multiply_bruteforce_cong) (simp_all add: contents_def)
  then show ?thesis
    using matrixMultiplyBruteForce_rd [OF assms]
    by (auto simp: contents_def multiply_bruteforce_def fun_eq_iff)
qed

section \<open>The recursive algorithm on values\<close>

lemma sum_split_half:
  fixes f :: "nat \<Rightarrow> 64 word"
  shows "(\<Sum>k<2 * h. f k) = (\<Sum>k<h. f k) + (\<Sum>k<h. f (k + h))"
proof -
  have "(\<Sum>k<h + m. f k) = (\<Sum>k<h. f k) + (\<Sum>k<m. f (k + h))" for m
    by (induction m) (simp_all add: add.commute add.left_commute)
  from this [of h] show ?thesis by (simp add: mult_2)
qed

lemma sum_split_half':
  fixes f :: "nat \<Rightarrow> 64 word"
  shows "(\<Sum>k<h * 2. f k) = (\<Sum>k<h. f k) + (\<Sum>k<h. f (k + h))"
  using sum_split_half [of f h] by (simp add: mult.commute)

lemma strassen_identity:
  fixes A B :: mat and h :: nat
  defines "A11 \<equiv> quadrant h A 0 0" and "A12 \<equiv> quadrant h A 0 1"
    and "A21 \<equiv> quadrant h A 1 0" and "A22 \<equiv> quadrant h A 1 1"
    and "B11 \<equiv> quadrant h B 0 0" and "B12 \<equiv> quadrant h B 0 1"
    and "B21 \<equiv> quadrant h B 1 0" and "B22 \<equiv> quadrant h B 1 1"
  defines "P1 \<equiv> multiply_bruteforce h A11 (mat_sub B12 B22)"
    and "P2 \<equiv> multiply_bruteforce h (mat_add A11 A12) B22"
    and "P3 \<equiv> multiply_bruteforce h (mat_add A21 A22) B11"
    and "P4 \<equiv> multiply_bruteforce h A22 (mat_sub B21 B11)"
    and "P5 \<equiv> multiply_bruteforce h (mat_add A11 A22) (mat_add B11 B22)"
    and "P6 \<equiv> multiply_bruteforce h (mat_sub A12 A22) (mat_add B21 B22)"
    and "P7 \<equiv> multiply_bruteforce h (mat_sub A11 A21) (mat_add B11 B12)"
  shows "assemble h (mat_add (mat_sub (mat_add P5 P4) P2) P6) (mat_add P1 P2) (mat_add P3 P4)
            (mat_sub (mat_sub (mat_add P5 P1) P3) P7)
         = multiply_bruteforce (2 * h) A B"
proof (intro ext)
  fix i j
  let ?L = "assemble h (mat_add (mat_sub (mat_add P5 P4) P2) P6) (mat_add P1 P2) (mat_add P3 P4)
            (mat_sub (mat_sub (mat_add P5 P1) P3) P7)"
  note defs = assms assemble_def mat_add_def mat_sub_def multiply_bruteforce_def quadrant_def
  note alg = sum_split_half sum_split_half' sum.distrib sum_subtractf algebra_simps
  consider (out) "\<not> (i < 2 * h \<and> j < 2 * h)"
    | (c11) "i < h" "j < h" | (c12) "i < h" "h \<le> j" "j < 2 * h"
    | (c21) "h \<le> i" "i < 2 * h" "j < h" | (c22) "h \<le> i" "i < 2 * h" "h \<le> j" "j < 2 * h"
    by linarith
  then show "?L i j = multiply_bruteforce (2 * h) A B i j"
  proof cases
    case out
    then show ?thesis unfolding defs by auto
  next
    case c11
    then show ?thesis unfolding defs by (simp add: alg cong: sum.cong_simp)
  next
    case c12
    then obtain j' where j': "j = j' + h" "j' < h" by (metis add.commute le_Suc_ex nat_add_left_cancel_less mult_2)
    show ?thesis using c12(1) j'(2) unfolding defs j'(1) by (simp add: alg cong: sum.cong_simp)
  next
    case c21
    then obtain i' where i': "i = i' + h" "i' < h" by (metis add.commute le_Suc_ex nat_add_left_cancel_less mult_2)
    show ?thesis using c21(3) i'(2) unfolding defs i'(1) by (simp add: alg cong: sum.cong_simp)
  next
    case c22
    then obtain i' where i': "i = i' + h" "i' < h" by (metis add.commute le_Suc_ex nat_add_left_cancel_less mult_2)
    from c22 obtain j' where j': "j = j' + h" "j' < h" by (metis add.commute le_Suc_ex nat_add_left_cancel_less mult_2)
    show ?thesis using i'(2) j'(2) unfolding defs i'(1) j'(1) by (simp add: alg cong: sum.cong_simp)
  qed
qed

section \<open>The recursive engine computes the recursive algorithm\<close>

text \<open>The seven products, for any multiplier that meets its contract on the local store.\<close>

lemma seven_products_contents:
  fixes mul :: "heap \<Rightarrow> matrix \<Rightarrow> matrix \<Rightarrow> matrix \<Rightarrow> heap" and M :: "mat \<Rightarrow> mat \<Rightarrow> mat"
    and l :: heap and half :: int
  assumes frame: "\<forall>l X Y P D. separate D P (nat half)
                    \<longrightarrow> contents (mul l X Y P) D (nat half) = contents l D (nat half)"
    and val: "\<forall>l X Y P. rows_distinct P (nat half) \<and> separate X P (nat half) \<and> separate Y P (nat half)
                    \<longrightarrow> contents (mul l X Y P) P (nat half)
                        = M (contents l X (nat half)) (contents l Y (nat half))"
  defines "K b \<equiv> contents l (fresh (nat half) b) (nat half)"
  defines "l' \<equiv> seven_products mul half l"
  shows "contents l' (fresh (nat half) 10) (nat half) = M (K 0) (mat_sub (K 5) (K 7))"
    and "contents l' (fresh (nat half) 11) (nat half) = M (mat_add (K 0) (K 1)) (K 7)"
    and "contents l' (fresh (nat half) 12) (nat half) = M (mat_add (K 2) (K 3)) (K 4)"
    and "contents l' (fresh (nat half) 13) (nat half) = M (K 3) (mat_sub (K 6) (K 4))"
    and "contents l' (fresh (nat half) 14) (nat half) = M (mat_add (K 0) (K 3)) (mat_add (K 4) (K 7))"
    and "contents l' (fresh (nat half) 15) (nat half) = M (mat_sub (K 1) (K 3)) (mat_add (K 6) (K 7))"
    and "contents l' (fresh (nat half) 16) (nat half) = M (mat_sub (K 0) (K 2)) (mat_add (K 4) (K 5))"
  unfolding l'_def K_def seven_products_def Let_def
  by (simp_all add: frame [rule_format] val [rule_format] addMatrix_contents subtractMatrix_contents
        addMatrix_contents_frame subtractMatrix_contents_frame fresh_separate fresh_rows_distinct)

lemma cells_mono: "m \<le> n \<Longrightarrow> cells C m \<subseteq> cells C n"
  unfolding cells_def by auto

lemma matrixMultiplyDivideConquer_base:
  "n \<le> 2 \<Longrightarrow> matrixMultiplyDivideConquer g h A B C n = matrixMultiplyBruteForce h A B C n"
  by (subst matrixMultiplyDivideConquer.simps) simp

lemma matrixMultiplyDivideConquer_rec:
  "2 < n \<Longrightarrow> matrixMultiplyDivideConquer g h A B C n
     = combine_quadrants
         (seven_products (\<lambda>l X Y P. matrixMultiplyDivideConquer g l X Y P (n div 2)) (n div 2)
            (split_quadrants h A B (n div 2) g))
         (n div 2) h C"
  by (subst matrixMultiplyDivideConquer.simps) (simp add: Let_def)

text \<open>Only cells of the leading \<open>2 * (n div 2)\<close> rows and columns of \<open>C\<close> are written.\<close>

lemma matrixMultiplyDivideConquer_untouched:
  assumes "2 < n" "a \<notin> cells C (2 * nat (n div 2))"
  shows "matrixMultiplyDivideConquer g h A B C n a = h a"
  unfolding matrixMultiplyDivideConquer_rec [OF assms(1)]
  by (rule combine_quadrants_frame [OF assms(2)])

lemma matrixMultiplyDivideConquer_frame:
  assumes "a \<notin> cells C (nat n)"
  shows "matrixMultiplyDivideConquer g h A B C n a = h a"
proof (cases "n \<le> 2")
  case True
  then show ?thesis
    using matrixMultiplyBruteForce_frame [OF assms] by (simp add: matrixMultiplyDivideConquer_base)
next
  case False
  then have "2 * nat (n div 2) \<le> nat n" by linarith
  then have "a \<notin> cells C (2 * nat (n div 2))" using assms cells_mono by blast
  then show ?thesis using False by (intro matrixMultiplyDivideConquer_untouched) simp_all
qed

lemma matrixMultiplyDivideConquer_contents_frame:
  "separate D C (nat n) \<Longrightarrow>
     contents (matrixMultiplyDivideConquer g h A B C n) D (nat n) = contents h D (nat n)"
  by (rule contents_frame) (rule matrixMultiplyDivideConquer_frame)

lemma combined_assemble:
  fixes l :: heap and hf :: nat
  defines "K b \<equiv> contents l (fresh hf b) hf"
  assumes "i < 2 * hf" "j < 2 * hf"
  shows "combined l hf (i, j)
         = assemble hf (mat_add (mat_sub (mat_add (K 14) (K 13)) (K 11)) (K 15))
             (mat_add (K 10) (K 11)) (mat_add (K 12) (K 13))
             (mat_sub (mat_sub (mat_add (K 14) (K 10)) (K 12)) (K 16)) i j"
  using assms(2,3) unfolding K_def combined_def assemble_def mat_add_def mat_sub_def contents_def
  by auto

lemma combine_quadrants_contents:
  fixes l :: heap and half :: int
  defines "K b \<equiv> contents l (fresh (nat half) b) (nat half)"
  assumes "rows_distinct C (2 * nat half)"
  shows "contents (combine_quadrants l half h C) C (2 * nat half)
         = assemble (nat half) (mat_add (mat_sub (mat_add (K 14) (K 13)) (K 11)) (K 15))
             (mat_add (K 10) (K 11)) (mat_add (K 12) (K 13))
             (mat_sub (mat_sub (mat_add (K 14) (K 10)) (K 12)) (K 16))"
proof (intro ext)
  fix i j
  show "contents (combine_quadrants l half h C) C (2 * nat half) i j
         = assemble (nat half) (mat_add (mat_sub (mat_add (K 14) (K 13)) (K 11)) (K 15))
             (mat_add (K 10) (K 11)) (mat_add (K 12) (K 13))
             (mat_sub (mat_sub (mat_add (K 14) (K 10)) (K 12)) (K 16)) i j"
  proof (cases "i < 2 * nat half \<and> j < 2 * nat half")
    case True
    then have "contents (combine_quadrants l half h C) C (2 * nat half) i j = combined l (nat half) (i, j)"
      using combine_quadrants_value [OF assms(2), of i j l h] by (simp add: contents_def)
    then show ?thesis using True unfolding K_def by (simp only: combined_assemble)
  next
    case False
    then show ?thesis by (auto simp: contents_def assemble_def)
  qed
qed

lemma quadrant_contents:
  "2 * hf \<le> n \<Longrightarrow> r < 2 \<Longrightarrow> c < 2 \<Longrightarrow> quadrant hf (contents h A n) r c = quadrant hf (rd h A) r c"
proof -
  assume a: "2 * hf \<le> n" "r < 2" "c < 2"
  have rc: "r = 0 \<or> r = 1" "c = 0 \<or> c = 1" using a(2,3) by auto
  have "i + r * hf < n" if "i < hf" for i
    using rc(1) that a(1) by auto
  moreover have "j + c * hf < n" if "j < hf" for j
    using rc(2) that a(1) by auto
  ultimately show ?thesis by (auto simp: quadrant_def contents_def fun_eq_iff)
qed

lemma multiply_recursive_rec:
  "2 < n \<Longrightarrow> multiply_recursive n A B =
     assemble (n div 2)
       (mat_add (mat_sub (mat_add
          (multiply_recursive (n div 2) (mat_add (quadrant (n div 2) A 0 0) (quadrant (n div 2) A 1 1))
                                         (mat_add (quadrant (n div 2) B 0 0) (quadrant (n div 2) B 1 1)))
          (multiply_recursive (n div 2) (quadrant (n div 2) A 1 1)
                                         (mat_sub (quadrant (n div 2) B 1 0) (quadrant (n div 2) B 0 0))))
          (multiply_recursive (n div 2) (mat_add (quadrant (n div 2) A 0 0) (quadrant (n div 2) A 0 1))
                                         (quadrant (n div 2) B 1 1)))
          (multiply_recursive (n div 2) (mat_sub (quadrant (n div 2) A 0 1) (quadrant (n div 2) A 1 1))
                                         (mat_add (quadrant (n div 2) B 1 0) (quadrant (n div 2) B 1 1))))
       (mat_add
          (multiply_recursive (n div 2) (quadrant (n div 2) A 0 0)
                                         (mat_sub (quadrant (n div 2) B 0 1) (quadrant (n div 2) B 1 1)))
          (multiply_recursive (n div 2) (mat_add (quadrant (n div 2) A 0 0) (quadrant (n div 2) A 0 1))
                                         (quadrant (n div 2) B 1 1)))
       (mat_add
          (multiply_recursive (n div 2) (mat_add (quadrant (n div 2) A 1 0) (quadrant (n div 2) A 1 1))
                                         (quadrant (n div 2) B 0 0))
          (multiply_recursive (n div 2) (quadrant (n div 2) A 1 1)
                                         (mat_sub (quadrant (n div 2) B 1 0) (quadrant (n div 2) B 0 0))))
       (mat_sub (mat_sub (mat_add
          (multiply_recursive (n div 2) (mat_add (quadrant (n div 2) A 0 0) (quadrant (n div 2) A 1 1))
                                         (mat_add (quadrant (n div 2) B 0 0) (quadrant (n div 2) B 1 1)))
          (multiply_recursive (n div 2) (quadrant (n div 2) A 0 0)
                                         (mat_sub (quadrant (n div 2) B 0 1) (quadrant (n div 2) B 1 1))))
          (multiply_recursive (n div 2) (mat_add (quadrant (n div 2) A 1 0) (quadrant (n div 2) A 1 1))
                                         (quadrant (n div 2) B 0 0)))
          (multiply_recursive (n div 2) (mat_sub (quadrant (n div 2) A 0 0) (quadrant (n div 2) A 1 0))
                                         (mat_add (quadrant (n div 2) B 0 0) (quadrant (n div 2) B 0 1))))"
  by (subst multiply_recursive.simps) (simp add: Let_def)

lemma reducible_by_halving_rec:
  "2 < n \<Longrightarrow> reducible_by_halving n \<Longrightarrow> even n \<and> reducible_by_halving (n div 2)"
  by (subst (asm) reducible_by_halving.simps) simp

lemma reducible_by_halving_base: "n \<le> 2 \<Longrightarrow> reducible_by_halving n"
  by (subst reducible_by_halving.simps) simp

lemma matrixMultiplyDivideConquer_refines:
  "reducible_by_halving (nat n) \<Longrightarrow> rows_distinct C (nat n) \<Longrightarrow> separate A C (nat n)
     \<Longrightarrow> separate B C (nat n)
     \<Longrightarrow> contents (matrixMultiplyDivideConquer g h A B C n) C (nat n)
         = multiply_recursive (nat n) (contents h A (nat n)) (contents h B (nat n))"
proof (induction "nat n" arbitrary: n h A B C rule: less_induct)
  case less
  show ?case
  proof (cases "n \<le> 2")
    case True
    then have "nat n \<le> 2" by simp
    then have "multiply_recursive (nat n) (contents h A (nat n)) (contents h B (nat n))
               = multiply_bruteforce (nat n) (contents h A (nat n)) (contents h B (nat n))"
      by (subst multiply_recursive.simps) simp
    then show ?thesis
      using True matrixMultiplyBruteForce_contents [OF less.prems(2,3,4)]
      by (simp add: matrixMultiplyDivideConquer_base)
  next
    case False
    define half where "half = n div 2"
    have n2: "2 < nat n" using False by simp
    have ev: "even (nat n)" and red: "reducible_by_halving (nat n div 2)"
      using reducible_by_halving_rec [OF n2 less.prems(1)] by simp_all
    have hn: "nat half = nat n div 2" using False by (simp add: half_def nat_div_distrib)
    have nn: "nat n = 2 * nat half" using ev hn by auto
    have lt: "nat half < nat n" using n2 hn by simp
    have IH: "\<forall>l X Y P. rows_distinct P (nat half) \<and> separate X P (nat half) \<and> separate Y P (nat half)
         \<longrightarrow> contents (matrixMultiplyDivideConquer g l X Y P half) P (nat half)
              = multiply_recursive (nat half) (contents l X (nat half)) (contents l Y (nat half))"
      using less.hyps [OF lt] red hn by simp
    have fr: "\<forall>l X Y P D. separate D P (nat half)
         \<longrightarrow> contents (matrixMultiplyDivideConquer g l X Y P half) D (nat half) = contents l D (nat half)"
      using matrixMultiplyDivideConquer_contents_frame by blast
    let ?l0 = "split_quadrants h A B half g"
    let ?mul = "\<lambda>l X Y P. matrixMultiplyDivideConquer g l X Y P half"
    note P = seven_products_contents [of half ?mul "multiply_recursive (nat half)" ?l0, OF fr IH]
    have rdC: "rows_distinct C (2 * nat half)" using less.prems(2) nn by simp
    have q: "quadrant (nat half) (rd h A) r c = quadrant (nat half) (contents h A (nat n)) r c"
            "quadrant (nat half) (rd h B) r c = quadrant (nat half) (contents h B (nat n)) r c"
      if "r < 2" "c < 2" for r c
      using quadrant_contents [of "nat half" "nat n" r c] that nn by simp_all
    have "contents (matrixMultiplyDivideConquer g h A B C n) C (nat n)
          = contents (combine_quadrants (seven_products ?mul half ?l0) half h C) C (2 * nat half)"
      using False nn by (simp add: matrixMultiplyDivideConquer_rec half_def)
    also have "\<dots> = multiply_recursive (nat n) (contents h A (nat n)) (contents h B (nat n))"
      unfolding combine_quadrants_contents [OF rdC] P split_quadrants_contents
        multiply_recursive_rec [OF n2] hn [symmetric]
      by (simp add: q)
    finally show ?thesis .
  qed
qed



lemma multiply_recursive_correct:
  "reducible_by_halving n \<Longrightarrow> multiply_recursive n A B = multiply_bruteforce n A B"
proof (induction n arbitrary: A B rule: less_induct)
  case (less n)
  show ?case
  proof (cases "n \<le> 2")
    case True
    then show ?thesis by (subst multiply_recursive.simps) simp
  next
    case False
    then have n2: "2 < n" by simp
    have ev: "even n" and red: "reducible_by_halving (n div 2)"
      using reducible_by_halving_rec [OF n2 less.prems] by simp_all
    have lt: "n div 2 < n" using n2 by simp
    have nn: "2 * (n div 2) = n" using ev by simp
    have IH: "multiply_recursive (n div 2) X Y = multiply_bruteforce (n div 2) X Y" for X Y
      by (rule less.IH [OF lt red])
    show ?thesis
      unfolding multiply_recursive_rec [OF n2] IH strassen_identity nn ..
  qed
qed

lemma power_of_two_reducible: "reducible_by_halving (2 ^ k)"
proof (induction k)
  case 0
  show ?case by (rule reducible_by_halving_base) simp
next
  case (Suc k)
  show ?case
  proof (cases "(2::nat) ^ Suc k \<le> 2")
    case True then show ?thesis by (rule reducible_by_halving_base)
  next
    case False
    then show ?thesis using Suc.IH by (subst reducible_by_halving.simps) simp
  qed
qed

lemma matrixMultiplyDivideConquer_rd:
  assumes "reducible_by_halving (nat n)"
    and "rows_distinct C (nat n)" "separate A C (nat n)" "separate B C (nat n)"
    and "i < nat n" "j < nat n"
  shows "rd (matrixMultiplyDivideConquer g h A B C n) C i j = (\<Sum>k<nat n. rd h A i k * rd h B k j)"
proof -
  have "contents (matrixMultiplyDivideConquer g h A B C n) C (nat n)
        = multiply_bruteforce (nat n) (contents h A (nat n)) (contents h B (nat n))"
    using matrixMultiplyDivideConquer_refines [OF assms(1,2,3,4)] multiply_recursive_correct [OF assms(1)]
    by simp
  also have "\<dots> = multiply_bruteforce (nat n) (rd h A) (rd h B)"
    by (rule multiply_bruteforce_cong) (simp_all add: contents_def)
  finally have "contents (matrixMultiplyDivideConquer g h A B C n) C (nat n) i j
        = multiply_bruteforce (nat n) (rd h A) (rd h B) i j" by simp
  then show ?thesis using assms(5,6) by (simp add: contents_def multiply_bruteforce_def)
qed

lemma last_row_column_untouched:
  assumes "2 < n" "odd n" "rows_distinct C (nat n)" "i < nat n" "j < nat n"
    and "i = nat n - 1 \<or> j = nat n - 1"
  shows "rd (matrixMultiplyDivideConquer g h A B C n) C i j = rd h C i j"
  unfolding rd_def
proof (rule matrixMultiplyDivideConquer_untouched [OF assms(1)])
  let ?m = "2 * nat (n div 2)"
  have m: "?m = nat n - 1" using assms(1,2) by (auto elim!: oddE)
  show "cell C i j \<notin> cells C ?m"
  proof
    assume "cell C i j \<in> cells C ?m"
    then obtain i' j' where ij': "i' < ?m" "j' < ?m" "cell C i j = cell C i' j'"
      unfolding cells_def by auto
    then have "i' < nat n" "j' < nat n" using m by simp_all
    then have "i = i' \<and> j = j'"
      using assms(3,4,5) ij'(3) unfolding rows_distinct_def by blast
    then show False using ij'(1,2) m assms(6) by auto
  qed
qed

lemma identity_sum:
  assumes "is_identity h B n" "j < n"
  shows "(\<Sum>k<n. rd h A i k * rd h B k j) = rd h A i j"
proof -
  have "(\<Sum>k<n. rd h A i k * rd h B k j) = (\<Sum>k\<in>{..<n}. if k = j then rd h A i k else 0)"
    using assms by (intro sum.cong) (auto simp: is_identity_def)
  also have "\<dots> = rd h A i j" using assms(2) by (simp add: sum.delta')
  finally show ?thesis .
qed

lemma sum_lessThan_3: "(\<Sum>k<3. f k) = f 0 + f (Suc 0) + f 2"
  by (simp add: eval_nat_numeral)

lemma sum_lessThan_4: "(\<Sum>k<4. f k) = f 0 + f (Suc 0) + f 2 + f 3"
  by (simp add: eval_nat_numeral)

lemma all_less_3: "(\<forall>i<3. P i) \<longleftrightarrow> P 0 \<and> P (Suc 0) \<and> P 2"
  by (auto simp: eval_nat_numeral All_less_Suc)

lemma all_less_4: "(\<forall>i<4. P i) \<longleftrightarrow> P 0 \<and> P (Suc 0) \<and> P 2 \<and> P 3"
  by (auto simp: eval_nat_numeral All_less_Suc)

lemma layout_2x2:
  "rows_distinct (rows_at 8 2) (nat 2)"
  "separate (rows_at 0 2) (rows_at 8 2) (nat 2)" "separate (rows_at 4 2) (rows_at 8 2) (nat 2)"
  using rows_at_distinct [of 8 2] rows_at_separate [of 0 2 8] rows_at_separate [of 4 2 8]
  by simp_all

lemma layout_3x3:
  "rows_distinct (rows_at 18 3) (nat 3)"
  "separate (rows_at 0 3) (rows_at 18 3) (nat 3)" "separate (rows_at 9 3) (rows_at 18 3) (nat 3)"
  using rows_at_distinct [of 18 3] rows_at_separate [of 0 3 18] rows_at_separate [of 9 3 18]
  by simp_all

lemma layout_4x4:
  "rows_distinct (rows_at 32 4) (nat 4)" "rows_distinct (rows_at 48 4) (nat 4)"
  "separate (rows_at 0 4) (rows_at 32 4) (nat 4)" "separate (rows_at 16 4) (rows_at 32 4) (nat 4)"
  "separate (rows_at 0 4) (rows_at 48 4) (nat 4)" "separate (rows_at 16 4) (rows_at 48 4) (nat 4)"
  using rows_at_distinct [of 32 4] rows_at_distinct [of 48 4]
    rows_at_separate [of 0 4 32] rows_at_separate [of 16 4 32]
    rows_at_separate [of 0 4 48] rows_at_separate [of 16 4 48]
  by simp_all

lemma cells_rows_at_lower: "a < b \<Longrightarrow> a \<notin> cells (rows_at b n) n"
  by (auto simp: cells_def cell_def rows_at_def)

section \<open>Brute-force product, elementwise operations and the equality check\<close>

text \<open>
  C3: for \<open>n \<times> n\<close> operands \<open>A\<close>, \<open>B\<close> and a destination \<open>C\<close> whose cells are pairwise
  different and shared with neither operand, \<open>matrixMultiplyBruteForce\<close> leaves in every
  \<open>C[i][j]\<close> the sum over \<open>k\<close> of \<open>A[i][k] * B[k][j]\<close>; and skipping the terms with a zero
  factor changes nothing: the resulting store is the one the unconditional triple loop
  produces.
\<close>

theorem matrixMultiplyBruteForce_correct:
  assumes "rows_distinct C (nat n)" "separate A C (nat n)" "separate B C (nat n)"
    and "i < nat n" "j < nat n"
  shows "rd (matrixMultiplyBruteForce h A B C n) C i j = (\<Sum>k<nat n. rd h A i k * rd h B k j)
         \<and> matrixMultiplyBruteForce h A B C n = unconditionalTripleLoop h A B C n"
  using matrixMultiplyBruteForce_rd [OF assms]
  by (simp add: matrixMultiplyBruteForce_def unconditionalTripleLoop_def bf_cell_unconditional)

theorem matrixMultiplyBruteForce_correct_witness:
  "rd (matrixMultiplyBruteForce heap_2x2 (rows_at 0 2) (rows_at 4 2) (rows_at 8 2) 2)
      (rows_at 8 2) 1 1 = 50"
proof -
  have 1: "rows_distinct (rows_at 8 2) (nat 2)"
    using rows_at_distinct [of 8 2] by simp
  have 2: "separate (rows_at 0 2) (rows_at 8 2) (nat 2)"
    using rows_at_separate [of 0 2 8] by simp
  have 3: "separate (rows_at 4 2) (rows_at 8 2) (nat 2)"
    using rows_at_separate [of 4 2 8] by simp
  have 4: "1 < nat 2" by simp
  have 5: "(\<Sum>k<nat 2. rd heap_2x2 (rows_at 0 2) 1 k * rd heap_2x2 (rows_at 4 2) k 1) = 50"
    by (simp add: sum_lessThan_2 rd_rows_at heap_2x2_def)
  show ?thesis
    using matrixMultiplyBruteForce_correct [OF 1 2 3 4 4, of heap_2x2, THEN conjunct1]
    unfolding 5 .
qed

text \<open>
  C6: for equal-sized operands and a destination laid out apart from them, \<open>addMatrix\<close>
  stores \<open>A[i][j] + B[i][j]\<close> and \<open>subtractMatrix\<close> stores \<open>A[i][j] - B[i][j]\<close> in
  \<open>C[i][j]\<close>; adding \<open>B\<close> to \<open>A\<close> and then subtracting \<open>B\<close> from the result gives back
  the entries of \<open>A\<close>.
\<close>

theorem add_subtract_roundtrip:
  assumes "rows_distinct C (nat n)" "separate A C (nat n)" "separate B C (nat n)"
    and "rows_distinct D (nat n)" "separate C D (nat n)" "separate B D (nat n)"
    and "i < nat n" "j < nat n"
  shows "rd (addMatrix h A B C n) C i j = rd h A i j + rd h B i j
       \<and> rd (subtractMatrix h A B C n) C i j = rd h A i j - rd h B i j
       \<and> rd (subtractMatrix (addMatrix h A B C n) C B D n) D i j = rd h A i j"
proof -
  let ?h1 = "addMatrix h A B C n"
  have a: "rd ?h1 C i j = rd h A i j + rd h B i j"
    by (rule addMatrix_rd [OF assms(1,2,3,7,8)])
  have s: "rd (subtractMatrix h A B C n) C i j = rd h A i j - rd h B i j"
    by (rule subtractMatrix_rd [OF assms(1,2,3,7,8)])
  have b: "rd ?h1 B i j = rd h B i j"
    unfolding rd_def by (rule addMatrix_frame) (rule separate_cell [OF assms(3,7,8)])
  have "rd (subtractMatrix ?h1 C B D n) D i j = rd ?h1 C i j - rd ?h1 B i j"
    by (rule subtractMatrix_rd [OF assms(4,5,6,7,8)])
  then show ?thesis using a s b by simp
qed

theorem add_subtract_roundtrip_witness:
  "rd (addMatrix heap_2x2 (rows_at 0 2) (rows_at 4 2) (rows_at 8 2) 2) (rows_at 8 2) 1 0 = 10
   \<and> rd (subtractMatrix heap_2x2 (rows_at 0 2) (rows_at 4 2) (rows_at 8 2) 2) (rows_at 8 2) 1 0 = - 4
   \<and> rd (subtractMatrix (addMatrix heap_2x2 (rows_at 0 2) (rows_at 4 2) (rows_at 8 2) 2)
            (rows_at 8 2) (rows_at 4 2) (rows_at 12 2) 2) (rows_at 12 2) 1 0 = 3"
proof -
  have 1: "rows_distinct (rows_at 8 2) (nat 2)" "rows_distinct (rows_at 12 2) (nat 2)"
    using rows_at_distinct [of 8 2] rows_at_distinct [of 12 2] by simp_all
  have 2: "separate (rows_at 0 2) (rows_at 8 2) (nat 2)"
    using rows_at_separate [of 0 2 8] by simp
  have 3: "separate (rows_at 4 2) (rows_at 8 2) (nat 2)"
    using rows_at_separate [of 4 2 8] by simp
  have 4: "separate (rows_at 8 2) (rows_at 12 2) (nat 2)"
    using rows_at_separate [of 8 2 12] by simp
  have 5: "separate (rows_at 4 2) (rows_at 12 2) (nat 2)"
    using rows_at_separate [of 4 2 12] by simp
  have 6: "1 < nat 2" "0 < nat 2" by simp_all
  have 7: "rd heap_2x2 (rows_at 0 2) 1 0 = 3" "rd heap_2x2 (rows_at 4 2) 1 0 = 7"
    by (simp_all add: rd_rows_at heap_2x2_def)
  show ?thesis
    using add_subtract_roundtrip [OF 1(1) 2 3 1(2) 4 5 6, of heap_2x2]
    unfolding 7 by simp
qed

text \<open>
  C7: \<open>verifyMatrices(A, B, n)\<close> is true exactly when \<open>A[i][j] = B[i][j]\<close> for all
  \<open>0 \<le> i, j < n\<close>.
\<close>

theorem verifyMatrices_iff:
  "verifyMatrices h A B n \<longleftrightarrow> (\<forall>i<nat n. \<forall>j<nat n. rd h A i j = rd h B i j)"
  by (auto simp: verifyMatrices_def verify_rows_iff)

theorem verifyMatrices_iff_witness:
  "verifyMatrices heap_2x2 (rows_at 0 2) (rows_at 0 2) 2
   \<and> \<not> verifyMatrices heap_2x2 (rows_at 0 2) (rows_at 4 2) 2"
proof
  show "verifyMatrices heap_2x2 (rows_at 0 2) (rows_at 0 2) 2"
    unfolding verifyMatrices_iff by simp
  have ne: "rd heap_2x2 (rows_at 0 2) 0 0 \<noteq> rd heap_2x2 (rows_at 4 2) 0 0"
    by (simp add: rd_rows_at heap_2x2_def)
  show "\<not> verifyMatrices heap_2x2 (rows_at 0 2) (rows_at 4 2) 2"
    unfolding verifyMatrices_iff
  proof
    assume "\<forall>i<nat 2. \<forall>j<nat 2. rd heap_2x2 (rows_at 0 2) i j = rd heap_2x2 (rows_at 4 2) i j"
    then have "rd heap_2x2 (rows_at 0 2) 0 0 = rd heap_2x2 (rows_at 4 2) 0 0" by simp
    with ne show False by simp
  qed
qed

section \<open>Divide and conquer against brute force\<close>

lemma reducible_4: "reducible_by_halving (nat 4)"
  using power_of_two_reducible [of 2] by simp

lemma product_4x4:
  "(\<Sum>k<nat 4. rd heap_4x4 (rows_at 0 4) 0 k * rd heap_4x4 (rows_at 16 4) k 0) = 90"
  by (simp add: sum_lessThan_4 rd_rows_at heap_4x4_def)

lemma divide_conquer_3x3:
  "rd (matrixMultiplyDivideConquer g heap_3x3 (rows_at 0 3) (rows_at 9 3) (rows_at 18 3) 3)
      (rows_at 18 3) 2 2 = 0"
proof -
  have "rd (matrixMultiplyDivideConquer g heap_3x3 (rows_at 0 3) (rows_at 9 3) (rows_at 18 3) 3)
      (rows_at 18 3) 2 2 = rd heap_3x3 (rows_at 18 3) 2 2"
    by (rule last_row_column_untouched [OF _ _ layout_3x3(1)]) simp_all
  then show ?thesis by (simp add: rd_rows_at heap_3x3_def)
qed

lemma brute_force_3x3:
  "rd (matrixMultiplyBruteForce heap_3x3 (rows_at 0 3) (rows_at 9 3) (rows_at 18 3) 3)
      (rows_at 18 3) 2 2 = 1"
proof -
  have 2: "2 < nat 3" by simp
  have "(\<Sum>k<nat 3. rd heap_3x3 (rows_at 0 3) 2 k * rd heap_3x3 (rows_at 9 3) k 2) = 1"
    by (simp add: sum_lessThan_3 rd_rows_at heap_3x3_def)
  then show ?thesis using matrixMultiplyBruteForce_rd [OF layout_3x3 2 2, of heap_3x3] by simp
qed

lemma identity_3x3: "is_identity heap_3x3 (rows_at 9 3) (nat 3)"
  by (simp add: is_identity_def all_less_3 rd_rows_at heap_3x3_def)

lemma identity_4x4: "is_identity heap_identity_4x4 (rows_at 16 4) (nat 4)"
  by (simp add: is_identity_def all_less_4 rd_rows_at heap_identity_4x4_def)

text \<open>
  C1: for square matrices whose size is a power of two, or otherwise reaches the base case
  \<open>n \<le> 2\<close> by repeated exact halving, and destinations laid out apart from the operands,
  every entry of the result of \<open>matrixMultiplyDivideConquer\<close> equals the corresponding
  entry of the result of \<open>matrixMultiplyBruteForce\<close>.
\<close>

theorem divide_conquer_equals_brute_force:
  assumes "(\<exists>k. n = 2 ^ k) \<or> reducible_by_halving (nat n)"
    and "rows_distinct C1 (nat n)" "separate A C1 (nat n)" "separate B C1 (nat n)"
    and "rows_distinct C2 (nat n)" "separate A C2 (nat n)" "separate B C2 (nat n)"
    and "i < nat n" "j < nat n"
  shows "rd (matrixMultiplyDivideConquer g h A B C2 n) C2 i j
         = rd (matrixMultiplyBruteForce h A B C1 n) C1 i j"
proof -
  have r: "reducible_by_halving (nat n)"
    using assms(1)
  proof (elim disjE exE)
    fix k assume "n = 2 ^ k"
    then have "nat n = 2 ^ k" by (simp add: nat_power_eq)
    then show ?thesis by (metis power_of_two_reducible)
  qed
  show ?thesis
    using matrixMultiplyDivideConquer_rd [OF r assms(5,6,7,8,9)]
      matrixMultiplyBruteForce_rd [OF assms(2,3,4,8,9)]
    by simp
qed

theorem divide_conquer_equals_brute_force_witness:
  "rd (matrixMultiplyDivideConquer (\<lambda>_. 0) heap_4x4 (rows_at 0 4) (rows_at 16 4) (rows_at 48 4) 4)
      (rows_at 48 4) 0 0
   = rd (matrixMultiplyBruteForce heap_4x4 (rows_at 0 4) (rows_at 16 4) (rows_at 32 4) 4)
      (rows_at 32 4) 0 0
   \<and> rd (matrixMultiplyBruteForce heap_4x4 (rows_at 0 4) (rows_at 16 4) (rows_at 32 4) 4)
      (rows_at 32 4) 0 0 = 90"
proof -
  have p: "(\<exists>k. (4::int) = 2 ^ k) \<or> reducible_by_halving (nat 4)"
    by (intro disjI1 exI [of _ 2]) simp
  have 0: "0 < nat 4" by simp
  have bf: "rd (matrixMultiplyBruteForce heap_4x4 (rows_at 0 4) (rows_at 16 4) (rows_at 32 4) 4)
      (rows_at 32 4) 0 0 = 90"
    using matrixMultiplyBruteForce_rd [OF layout_4x4(1,3,4) 0 0, of heap_4x4] product_4x4 by simp
  show ?thesis
    using divide_conquer_equals_brute_force [OF p layout_4x4(1,3,4,2,5,6) 0 0, of "\<lambda>_. 0" heap_4x4] bf
    by simp
qed



text \<open>
  C4: \<open>matrixMultiplyDivideConquer\<close> accepts every \<open>n\<close>; for odd \<open>n > 2\<close> no cell of the
  last row or of the last column of \<open>C\<close> is written, and there are an odd \<open>n > 2\<close> and
  matrices for which its result differs from the brute-force product.
\<close>

theorem odd_size_truncated:
  "(2 < n \<and> odd n \<and> rows_distinct C (nat n) \<and> i < nat n \<and> j < nat n
      \<and> (i = nat n - 1 \<or> j = nat n - 1)
     \<longrightarrow> rd (matrixMultiplyDivideConquer g h A B C n) C i j = rd h C i j)
   \<and> (\<exists>m h' A' B' C'. 2 < m \<and> odd m \<and> rows_distinct C' (nat m)
         \<and> separate A' C' (nat m) \<and> separate B' C' (nat m)
         \<and> (\<exists>i'<nat m. \<exists>j'<nat m. rd (matrixMultiplyDivideConquer g h' A' B' C' m) C' i' j'
                \<noteq> rd (matrixMultiplyBruteForce h' A' B' C' m) C' i' j'))"
proof -
  have "rd (matrixMultiplyDivideConquer g heap_3x3 (rows_at 0 3) (rows_at 9 3) (rows_at 18 3) 3)
         (rows_at 18 3) 2 2
        \<noteq> rd (matrixMultiplyBruteForce heap_3x3 (rows_at 0 3) (rows_at 9 3) (rows_at 18 3) 3)
         (rows_at 18 3) 2 2"
    by (simp add: divide_conquer_3x3 brute_force_3x3)
  moreover have "(2::nat) < nat 3" by simp
  ultimately have "\<exists>i'<nat 3. \<exists>j'<nat 3.
      rd (matrixMultiplyDivideConquer g heap_3x3 (rows_at 0 3) (rows_at 9 3) (rows_at 18 3) 3)
         (rows_at 18 3) i' j'
      \<noteq> rd (matrixMultiplyBruteForce heap_3x3 (rows_at 0 3) (rows_at 9 3) (rows_at 18 3) 3)
         (rows_at 18 3) i' j'" by blast
  moreover have "(2::int) < 3 \<and> odd (3::int)" by simp
  ultimately have "\<exists>m h' A' B' C'. 2 < m \<and> odd m \<and> rows_distinct C' (nat m)
         \<and> separate A' C' (nat m) \<and> separate B' C' (nat m)
         \<and> (\<exists>i'<nat m. \<exists>j'<nat m. rd (matrixMultiplyDivideConquer g h' A' B' C' m) C' i' j'
                \<noteq> rd (matrixMultiplyBruteForce h' A' B' C' m) C' i' j')"
    using layout_3x3 by blast
  then show ?thesis using last_row_column_untouched by blast
qed

theorem odd_size_truncated_witness:
  "rd (matrixMultiplyDivideConquer (\<lambda>_. 7) heap_3x3 (rows_at 0 3) (rows_at 9 3) (rows_at 18 3) 3)
      (rows_at 18 3) 2 0 = 0"
proof -
  have "rd (matrixMultiplyDivideConquer (\<lambda>_. 7) heap_3x3 (rows_at 0 3) (rows_at 9 3) (rows_at 18 3) 3)
      (rows_at 18 3) 2 0 = rd heap_3x3 (rows_at 18 3) 2 0"
    using odd_size_truncated [where n = 3 and C = "rows_at 18 3" and i = 2 and j = 0
        and g = "\<lambda>_. 7" and h = heap_3x3 and A = "rows_at 0 3" and B = "rows_at 9 3"]
      layout_3x3(1)
    by simp
  then show ?thesis by (simp add: rd_rows_at heap_3x3_def)
qed

text \<open>
  C5, as amended: for an \<open>n \<times> n\<close> matrix \<open>A\<close> and the \<open>n \<times> n\<close> identity matrix, and a
  destination laid out apart from the operands, \<open>matrixMultiplyBruteForce\<close> returns the
  entries of \<open>A\<close> for every \<open>n\<close>, and \<open>matrixMultiplyDivideConquer\<close> returns them for every
  \<open>n\<close> that reaches the base case \<open>n \<le> 2\<close> by repeated exact halving.
\<close>

theorem identity_product:
  assumes "is_identity h B (nat n)"
    and "rows_distinct C (nat n)" "separate A C (nat n)" "separate B C (nat n)"
    and "i < nat n" "j < nat n"
  shows "rd (matrixMultiplyBruteForce h A B C n) C i j = rd h A i j
       \<and> (reducible_by_halving (nat n) \<longrightarrow>
            rd (matrixMultiplyDivideConquer g h A B C n) C i j = rd h A i j)"
  using matrixMultiplyBruteForce_rd [OF assms(2,3,4,5,6)]
    matrixMultiplyDivideConquer_rd [OF _ assms(2,3,4,5,6)]
    identity_sum [OF assms(1,6)]
  by simp

theorem identity_product_witness:
  "rd (matrixMultiplyBruteForce heap_identity_4x4 (rows_at 0 4) (rows_at 16 4) (rows_at 32 4) 4)
      (rows_at 32 4) 1 2 = 7
   \<and> rd (matrixMultiplyDivideConquer (\<lambda>_. 0) heap_identity_4x4 (rows_at 0 4) (rows_at 16 4) (rows_at 32 4) 4)
      (rows_at 32 4) 1 2 = 7"
proof -
  have b: "1 < nat 4" "2 < nat 4" by simp_all
  have v: "rd heap_identity_4x4 (rows_at 0 4) 1 2 = 7"
    by (simp add: rd_rows_at heap_identity_4x4_def)
  show ?thesis
    using identity_product [OF identity_4x4 layout_4x4(1,3,4) b, where g = "\<lambda>_. 0"] reducible_4
    unfolding v by simp
qed

text \<open>For \<open>n = 3\<close> the recursive engine leaves \<open>C[2][2]\<close> as it was, here 0, while
  \<open>A[2][2] = 1\<close>: the identity property fails for "any \<open>n\<close>".\<close>

theorem identity_counterexample:
  "is_identity heap_3x3 (rows_at 9 3) (nat 3)
   \<and> rows_distinct (rows_at 18 3) (nat 3)
   \<and> separate (rows_at 0 3) (rows_at 18 3) (nat 3)
   \<and> separate (rows_at 9 3) (rows_at 18 3) (nat 3)
   \<and> rd (matrixMultiplyDivideConquer (\<lambda>_. 0) heap_3x3 (rows_at 0 3) (rows_at 9 3) (rows_at 18 3) 3)
        (rows_at 18 3) 2 2
      \<noteq> rd heap_3x3 (rows_at 0 3) 2 2"
proof -
  have "rd heap_3x3 (rows_at 0 3) 2 2 = 1"
    by (simp add: rd_rows_at heap_3x3_def)
  then show ?thesis
    using identity_3x3 layout_3x3 divide_conquer_3x3 [of "\<lambda>_. 0"] by simp
qed

text \<open>
  C8: both multiplications change no cell outside the \<open>n \<times> n\<close> cells of the destination
  \<open>C\<close>; operands that share no cell with \<open>C\<close> hold the same contents after the call as
  before.
\<close>

theorem only_destination_written:
  "(a \<notin> cells C (nat n) \<longrightarrow>
      matrixMultiplyBruteForce h A B C n a = h a \<and> matrixMultiplyDivideConquer g h A B C n a = h a)
   \<and> (separate A C (nat n) \<and> separate B C (nat n) \<longrightarrow>
        contents (matrixMultiplyBruteForce h A B C n) A (nat n) = contents h A (nat n)
      \<and> contents (matrixMultiplyBruteForce h A B C n) B (nat n) = contents h B (nat n)
      \<and> contents (matrixMultiplyDivideConquer g h A B C n) A (nat n) = contents h A (nat n)
      \<and> contents (matrixMultiplyDivideConquer g h A B C n) B (nat n) = contents h B (nat n))"
proof -
  have bf: "contents (matrixMultiplyBruteForce h A B C n) D (nat n) = contents h D (nat n)"
    if "separate D C (nat n)" for D
    using that by (rule contents_frame [rotated]) (rule matrixMultiplyBruteForce_frame)
  show ?thesis
    by (simp add: bf matrixMultiplyDivideConquer_contents_frame matrixMultiplyBruteForce_frame
      matrixMultiplyDivideConquer_frame)
qed

theorem only_destination_written_witness:
  "matrixMultiplyBruteForce heap_2x2 (rows_at 0 2) (rows_at 4 2) (rows_at 8 2) 2 3 = 4
   \<and> matrixMultiplyDivideConquer (\<lambda>_. 0) heap_4x4 (rows_at 0 4) (rows_at 16 4) (rows_at 32 4) 4 3 = 4
   \<and> contents (matrixMultiplyBruteForce heap_2x2 (rows_at 0 2) (rows_at 4 2) (rows_at 8 2) 2) (rows_at 0 2) (nat 2)
     = contents heap_2x2 (rows_at 0 2) (nat 2)
   \<and> contents (matrixMultiplyDivideConquer (\<lambda>_. 0) heap_4x4 (rows_at 0 4) (rows_at 16 4) (rows_at 32 4) 4)
       (rows_at 16 4) (nat 4) = contents heap_4x4 (rows_at 16 4) (nat 4)"
proof -
  have 1: "3 \<notin> cells (rows_at 8 2) (nat 2)" "3 \<notin> cells (rows_at 32 4) (nat 4)"
    using cells_rows_at_lower [of 3 8 2] cells_rows_at_lower [of 3 32 4] by simp_all
  have 2: "heap_2x2 3 = 4" "heap_4x4 3 = 4"
    by (simp_all add: heap_2x2_def heap_4x4_def)
  show ?thesis
    using only_destination_written [where C = "rows_at 8 2" and n = 2 and h = heap_2x2
      and A = "rows_at 0 2" and B = "rows_at 4 2" and a = 3]
    only_destination_written [where C = "rows_at 32 4" and n = 4 and h = heap_4x4
      and A = "rows_at 0 4" and B = "rows_at 16 4" and g = "\<lambda>_. 0" and a = 3]
    layout_2x2 layout_4x4 1 2
    by simp
qed

section \<open>Factorial: the memo table and the agreement of both variants\<close>

lemma fact_step_word:
  "1 < n \<Longrightarrow> (word_of_int n :: 64 word) * word_of_nat (fact (nat (n - 1))) = word_of_nat (fact (nat n))"
proof -
  assume n: "1 < n"
  then obtain k where k: "nat n = Suc k" "nat (n - 1) = k" by (cases "nat n") auto
  have "(word_of_int n :: 64 word) = word_of_nat (nat n)" using n by simp
  then show ?thesis unfolding k by (simp add: algebra_simps)
qed

lemma factorialDivideConquer_spec:
  "memo_ok memo \<Longrightarrow> n \<le> 99 \<Longrightarrow>
     \<exists>memo'. factorialDivideConquer memo n = Some (word_of_nat (fact (nat n)), memo') \<and> memo_ok memo'"
proof (induction memo n rule: factorialDivideConquer.induct)
  case (1 memo n)
  note ok = "1.prems"(1) and n99 = "1.prems"(2)
  have len: "length memo = 100" using ok by (simp add: memo_ok_def)
  show ?case
  proof (cases "n \<le> 1")
    case True
    then have "nat n = 0 \<or> nat n = 1" by linarith
    then have "fact (nat n) = (1::nat)" by auto
    then show ?thesis using True ok by (subst factorialDivideConquer.simps) simp
  next
    case False
    then have inb: "\<not> length memo \<le> nat n" "nat n < 100" using len n99 by simp_all
    show ?thesis
    proof (cases "memo ! nat n \<noteq> 0")
      case True
      then have "memo ! nat n = word_of_nat (fact (nat n))"
        using ok inb(2) unfolding memo_ok_def by blast
      then show ?thesis using False inb True ok by (subst factorialDivideConquer.simps) simp
    next
      case miss: False
      then have z: "memo ! nat n = 0" by simp
      obtain m1 where m1: "factorialDivideConquer memo (n - 1) = Some (word_of_nat (fact (nat (n - 1))), m1)"
          "memo_ok m1"
        using "1.IH" [OF False inb(1) _ ok] z n99 by auto
      let ?v = "word_of_nat (fact (nat n)) :: 64 word"
      have v: "word_of_int n * word_of_nat (fact (nat (n - 1))) = ?v"
        using False by (intro fact_step_word) simp
      have "factorialDivideConquer memo n = Some (?v, m1[nat n := ?v])"
        using False inb z m1(1) v by (subst factorialDivideConquer.simps) simp
      moreover have "memo_ok (m1[nat n := ?v])"
        using m1(2) inb(2) unfolding memo_ok_def by (auto simp: nth_list_update)
      ultimately show ?thesis by blast
    qed
  qed
qed

lemma factorial_loop:
  "1 \<le> n \<Longrightarrow> fold (\<lambda>i result. result * word_of_int i) [2..n] (1 :: 64 word) = word_of_nat (fact (nat n))"
proof (induction n rule: int_ge_induct)
  case base
  show ?case by simp
next
  case (step i)
  have "[2..i + 1] = [2..i] @ [i + 1]" using step.hyps by (simp add: upto_rec2)
  moreover have "(word_of_int (i + 1) :: 64 word) * word_of_nat (fact (nat i)) = word_of_nat (fact (nat (i + 1)))"
    using fact_step_word [of "i + 1"] step.hyps by simp
  ultimately show ?case using step.IH by (simp add: mult.commute)
qed

lemma factorialBruteForce_fact: "factorialBruteForce n = word_of_nat (fact (nat n))"
proof (cases "n \<le> 1")
  case True
  then have "nat n = 0 \<or> nat n = 1" by linarith
  then have "fact (nat n) = (1::nat)" by auto
  then show ?thesis using True by (simp add: factorialBruteForce_def)
next
  case False
  then show ?thesis by (simp add: factorialBruteForce_def factorial_loop)
qed

lemma memo_ok_initial: "memo_ok memo_initial"
  by (simp add: memo_ok_def memo_initial_def)

lemma reachable_memo_ok: "reachable memo \<Longrightarrow> memo_ok memo"
proof (induction rule: reachable.induct)
  case initial
  show ?case by (rule memo_ok_initial)
next
  case (call memo n r memo')
  then show ?case using factorialDivideConquer_spec [of memo n] by auto
qed

lemma fdc_hit: "1 < n \<Longrightarrow> nat n < length memo \<Longrightarrow> memo ! nat n \<noteq> 0 \<Longrightarrow>
     factorialDivideConquer memo n = Some (memo ! nat n, memo)"
  and fdc_base: "n \<le> 1 \<Longrightarrow> factorialDivideConquer memo n = Some (1, memo)"
  and fdc_miss: "1 < n \<Longrightarrow> nat n < length memo \<Longrightarrow> memo ! nat n = 0 \<Longrightarrow>
     factorialDivideConquer memo n =
       (case factorialDivideConquer memo (n - 1) of None \<Rightarrow> None
        | Some (r, memo') \<Rightarrow> Some (word_of_int n * r, memo'[nat n := word_of_int n * r]))"
  and fdc_oob: "1 < n \<Longrightarrow> length memo \<le> nat n \<Longrightarrow> factorialDivideConquer memo n = None"
  by (subst factorialDivideConquer.simps, simp)+

text \<open>A first call \<open>factorialDivideConquer(5)\<close> fills the entries 2 to 5 of the table.\<close>

lemma factorialDivideConquer_run:
  "factorialDivideConquer memo_initial 5
   = Some (120, memo_initial[2 := 2, 3 := 6, 4 := 24, 5 := 120])"
  by (simp add: fdc_hit fdc_base fdc_miss memo_initial_def)

text \<open>
  C9: in every cache state reachable from the zero-initialised table by calls with
  \<open>n \<le> 99\<close>, each entry \<open>memo[k]\<close> is 0 or \<open>k!\<close> modulo \<open>2 ^ 64\<close>; and from such a state
  \<open>factorialDivideConquer(n)\<close> returns, for every \<open>n \<le> 99\<close>, the value of
  \<open>factorialBruteForce(n)\<close>, which is \<open>n!\<close> modulo \<open>2 ^ 64\<close> (1 for \<open>n \<le> 1\<close>).
\<close>

theorem memo_invariant:
  assumes "reachable memo"
  shows "(\<forall>k<100. memo ! k = 0 \<or> unat (memo ! k) = fact k mod 2 ^ 64)
       \<and> (\<forall>n\<le>99. \<exists>memo'. factorialDivideConquer memo n = Some (factorialBruteForce n, memo')
                     \<and> reachable memo'
                     \<and> unat (factorialBruteForce n) = fact (nat n) mod 2 ^ 64
                     \<and> (n \<le> 1 \<longrightarrow> factorialBruteForce n = 1))"
proof -
  have ok: "memo_ok memo" by (rule reachable_memo_ok [OF assms])
  have u: "unat (word_of_nat x :: 64 word) = x mod 2 ^ 64" for x
    by (simp add: unat_of_nat)
  have 1: "\<forall>k<100. memo ! k = 0 \<or> unat (memo ! k) = fact k mod 2 ^ 64"
    using ok u unfolding memo_ok_def by metis
  have 2: "\<exists>memo'. factorialDivideConquer memo n = Some (factorialBruteForce n, memo')
                     \<and> reachable memo'
                     \<and> unat (factorialBruteForce n) = fact (nat n) mod 2 ^ 64
                     \<and> (n \<le> 1 \<longrightarrow> factorialBruteForce n = 1)" if n: "n \<le> 99" for n
  proof -
    obtain memo' where m: "factorialDivideConquer memo n = Some (factorialBruteForce n, memo')"
      using factorialDivideConquer_spec [OF ok n] by (auto simp: factorialBruteForce_fact)
    have "reachable memo'" by (rule reachable.call [OF assms n m])
    moreover have "unat (factorialBruteForce n) = fact (nat n) mod 2 ^ 64"
      by (simp only: factorialBruteForce_fact u)
    moreover have "n \<le> 1 \<longrightarrow> factorialBruteForce n = 1" by (simp add: factorialBruteForce_def)
    ultimately show ?thesis using m by blast
  qed
  show ?thesis using 1 2 by blast
qed

theorem memo_invariant_witness:
  "unat ((memo_initial[2 := 2, 3 := 6, 4 := 24, 5 := 120]) ! 5) = fact 5 mod 2 ^ 64
   \<and> (\<exists>memo'. factorialDivideConquer (memo_initial[2 := 2, 3 := 6, 4 := 24, 5 := 120]) 5
                 = Some (120, memo'))
   \<and> unat (factorialBruteForce 5) = fact 5 mod 2 ^ 64"
proof -
  let ?m = "memo_initial[2 := 2, 3 := 6, 4 := 24, 5 := 120]"
  have r: "reachable ?m"
    by (rule reachable.call [OF reachable.initial _ factorialDivideConquer_run]) simp
  have v: "factorialBruteForce 5 = 120"
    by (simp add: factorialBruteForce_def upto.simps)
  have nz: "?m ! 5 = 120" by (simp add: memo_initial_def)
  have "?m ! 5 = 0 \<or> unat (?m ! 5) = fact 5 mod 2 ^ 64"
    by (rule memo_invariant [OF r, THEN conjunct1, rule_format]) simp
  then have 1: "unat (?m ! 5) = fact 5 mod 2 ^ 64" unfolding nz by simp
  have "\<exists>memo'. factorialDivideConquer ?m 5 = Some (factorialBruteForce 5, memo')
          \<and> reachable memo'
          \<and> unat (factorialBruteForce 5) = fact (nat 5) mod 2 ^ 64
          \<and> (5 \<le> (1::int) \<longrightarrow> factorialBruteForce 5 = 1)"
    by (rule memo_invariant [OF r, THEN conjunct2, rule_format]) simp
  then show ?thesis using 1 unfolding v by auto
qed

section \<open>Primality tests\<close>

lemma sqrt_search_bounds:
  "r * r \<le> n \<Longrightarrow> sqrt_search n r * sqrt_search n r \<le> n \<and> n < (sqrt_search n r + 1) * (sqrt_search n r + 1)"
proof (induction n r rule: sqrt_search.induct)
  case (1 n r)
  show ?case
  proof (cases "(r + 1) * (r + 1) \<le> n")
    case True
    then show ?thesis using "1.IH" by (subst (1 2 3 4) sqrt_search.simps) simp
  next
    case False
    then show ?thesis using "1.prems" by (subst (1 2 3 4) sqrt_search.simps) simp
  qed
qed

lemma int_sqrt_bounds:
  assumes "0 \<le> n"
  shows "0 \<le> int_sqrt n" "int_sqrt n * int_sqrt n \<le> n" "n < (int_sqrt n + 1) * (int_sqrt n + 1)"
proof -
  let ?s = "sqrt_search (nat n) 0"
  have b: "?s * ?s \<le> nat n \<and> nat n < (?s + 1) * (?s + 1)"
    by (rule sqrt_search_bounds) simp
  show "0 \<le> int_sqrt n" by (simp add: int_sqrt_def)
  have "int (?s * ?s) \<le> int (nat n)" using b by (simp only: of_nat_le_iff)
  then show "int_sqrt n * int_sqrt n \<le> n" using assms by (simp add: int_sqrt_def)
  have "int (nat n) < int ((?s + 1) * (?s + 1))" using b by (simp only: of_nat_less_iff)
  then show "n < (int_sqrt n + 1) * (int_sqrt n + 1)" using assms by (simp add: int_sqrt_def algebra_simps)
qed

text \<open>The integer square root is the floor of the real square root, the value that
  \<open>static_cast<int>(std::sqrt(n))\<close> has for every non-negative 32-bit \<open>n\<close>: a double holds
  such an \<open>n\<close> exactly and its square root is rounded correctly.\<close>

lemma int_sqrt_floor: "0 \<le> n \<Longrightarrow> int_sqrt n = \<lfloor>sqrt (real_of_int n)\<rfloor>"
proof -
  assume n: "0 \<le> n"
  let ?s = "int_sqrt n"
  note b = int_sqrt_bounds [OF n]
  have 1: "real_of_int ?s \<le> sqrt (real_of_int n)"
  proof (rule real_le_rsqrt)
    have "real_of_int (?s * ?s) \<le> real_of_int n" using b(2) by (simp only: of_int_le_iff)
    then show "(real_of_int ?s)\<^sup>2 \<le> real_of_int n" by (simp add: power2_eq_square)
  qed
  have 2: "sqrt (real_of_int n) < real_of_int ?s + 1"
  proof (rule real_less_lsqrt)
    show "0 \<le> real_of_int ?s + 1" using b(1) by simp
    have "real_of_int n < real_of_int ((?s + 1) * (?s + 1))" using b(3) by (simp only: of_int_less_iff)
    then show "real_of_int n < (real_of_int ?s + 1)\<^sup>2" by (simp add: power2_eq_square)
  qed
  show ?thesis using 1 2 by linarith
qed















end
